theory Spec2Isabelle
  imports Main
begin

section \<open>Campaign resolvers: errors and machine integers\<close>

text \<open>
  The Go code returns errors as values. The sentinels that the resolvers compare by identity
  (\<open>ErrIDIsZero\<close>, \<open>ee.ErrNoResults\<close>) are constructors of their own;
  \<open>NotFoundError\<close> stands for the errors on which \<open>errcode.IsNotFound\<close> answers true;
  \<open>PatchHasNoDiffStat id\<close> is \<open>fmt.Errorf("patch %d has no diff stat", id)\<close>; every other
  error is \<open>Error msg\<close>.
\<close>

datatype error =
    ErrIDIsZero
  | ErrNoResults
  | NotFoundError string
  | PatchHasNoDiffStat int
  | Error string

text \<open>
  Go's \<open>int32\<close> values are integers in the range from \<open>-2^31\<close> up to (excluding) \<open>2^31\<close>;
  the result of an \<open>int32\<close> operation is wrapped into that range by \<open>int32\<close>.
\<close>

definition is_int32 :: "int \<Rightarrow> bool" where
  "is_int32 x = (- (2 ^ 31) \<le> x \<and> x < 2 ^ 31)"

definition int32 :: "int \<Rightarrow> int" where
  "int32 x = (x + 2 ^ 31) mod 2 ^ 32 - 2 ^ 31"

section \<open>listChangesetOptsFromArgs\<close>

text \<open>
  \<open>graphqlbackend.ListChangesetsArgs\<close>: four optional fields (pointers in Go). The three
  state types are named string types of package \<open>campaigns\<close>.
\<close>

type_synonym ChangesetState = string
type_synonym ChangesetReviewState = string
type_synonym ChangesetCheckState = string

record ListChangesetsArgs =
  argFirst :: "int option"
  argState :: "ChangesetState option"
  argReviewState :: "ChangesetReviewState option"
  argCheckState :: "ChangesetCheckState option"

text \<open>The fields of \<open>ee.ListChangesetsOpts\<close> that the function sets; the others keep their zero value.\<close>

record ListChangesetsOpts =
  Limit :: int
  ExternalState :: "ChangesetState option"
  ExternalReviewState :: "ChangesetReviewState option"
  ExternalCheckState :: "ChangesetCheckState option"

definition zeroOpts :: ListChangesetsOpts where
  "zeroOpts = \<lparr>Limit = 0, ExternalState = None, ExternalReviewState = None, ExternalCheckState = None\<rparr>"

text \<open>
  The three \<open>Valid()\<close> methods are declared in package \<open>campaigns\<close>, outside the sources at
  hand; they are the parameters \<open>validState\<close>, \<open>validReview\<close> and \<open>validCheck\<close>. The
  function returns the triple \<open>(opts, optsSafe, err)\<close>, \<open>None\<close> for a nil error.
\<close>

definition listChangesetOptsFromArgs ::
  "(ChangesetState \<Rightarrow> bool) \<Rightarrow> (ChangesetReviewState \<Rightarrow> bool) \<Rightarrow> (ChangesetCheckState \<Rightarrow> bool) \<Rightarrow>
   ListChangesetsArgs option \<Rightarrow> ListChangesetsOpts \<times> bool \<times> error option" where
  "listChangesetOptsFromArgs validState validReview validCheck args =
    (case args of
      None \<Rightarrow> (zeroOpts, True, None)
    | Some a \<Rightarrow>
        let safe = True;
            opts = (case argFirst a of None \<Rightarrow> zeroOpts | Some f \<Rightarrow> zeroOpts\<lparr>Limit := f\<rparr>)
        in
        if (case argState a of None \<Rightarrow> False | Some s \<Rightarrow> \<not> validState s)
        then (opts, False, Some (Error ''changeset state not valid''))
        else
        let opts = (case argState a of None \<Rightarrow> opts | Some s \<Rightarrow> opts\<lparr>ExternalState := Some s\<rparr>)
        in
        if (case argReviewState a of None \<Rightarrow> False | Some s \<Rightarrow> \<not> validReview s)
        then (opts, False, Some (Error ''changeset review state not valid''))
        else
        let opts = (case argReviewState a of None \<Rightarrow> opts | Some s \<Rightarrow> opts\<lparr>ExternalReviewState := Some s\<rparr>);
            safe = (case argReviewState a of None \<Rightarrow> safe | Some s \<Rightarrow> False)
        in
        if (case argCheckState a of None \<Rightarrow> False | Some s \<Rightarrow> \<not> validCheck s)
        then (opts, False, Some (Error ''changeset check state not valid''))
        else
        let opts = (case argCheckState a of None \<Rightarrow> opts | Some s \<Rightarrow> opts\<lparr>ExternalCheckState := Some s\<rparr>);
            safe = (case argCheckState a of None \<Rightarrow> safe | Some s \<Rightarrow> False)
        in (opts, safe, None))"

text \<open>A filter value is out of its enum set when it is present and its \<open>Valid()\<close> answers false.\<close>

definition invalidFilter :: "('a \<Rightarrow> bool) \<Rightarrow> 'a option \<Rightarrow> bool" where
  "invalidFilter valid v = (case v of None \<Rightarrow> False | Some s \<Rightarrow> \<not> valid s)"

section \<open>patchSetDiffStat\<close>

text \<open>
  Modelled from the spec: the counters of a diff stat (\<open>diff.Stat\<close> of go-diff and
  \<open>graphqlbackend.DiffStat\<close>, both declared outside the sources at hand) are "three
  non-negative integers (added, changed, deleted) with an additive combination rule". The
  development is parametric in the counter type \<open>'n\<close>, any monoid under addition: the
  naturals, or machine integers that wrap.
\<close>

record 'n Stat =
  Added :: 'n
  Changed :: 'n
  Deleted :: 'n

definition zeroStat :: "('n::monoid_add) Stat" where
  "zeroStat = \<lparr>Added = 0, Changed = 0, Deleted = 0\<rparr>"

definition AddStat :: "('n::monoid_add) Stat \<Rightarrow> 'n Stat \<Rightarrow> 'n Stat" where
  "AddStat r s = \<lparr>Added = Added r + Added s, Changed = Changed r + Changed s, Deleted = Deleted r + Deleted s\<rparr>"

text \<open>
  Modelled from the spec: a \<open>campaigns.Patch\<close> has an "identity, target repository, ...
  unified diff text, optional precomputed diff statistic"; \<open>Patch_DiffStat\<close> is what the
  method \<open>p.DiffStat()\<close> returns, \<open>None\<close> when its second result is false.
\<close>

record 'n Patch =
  Patch_ID :: int
  Patch_RepoID :: int
  Patch_Diff :: string
  Patch_DiffStat :: "'n Stat option"

record Repo =
  Repo_ID :: int

record ListPatchesOpts =
  NoDiff :: bool

text \<open>
  The loop over the patches, with the running total \<open>totalStat\<close>. \<open>accessibleRepoIDs\<close> is the Go map
  used as a set.
\<close>

fun sumDiffStats :: "int set \<Rightarrow> ('n::monoid_add) Patch list \<Rightarrow> 'n Stat \<Rightarrow> error + 'n Stat" where
  "sumDiffStats accessibleRepoIDs [] totalStat = Inr totalStat"
| "sumDiffStats accessibleRepoIDs (p # ps) totalStat =
    (if Patch_RepoID p \<notin> accessibleRepoIDs then sumDiffStats accessibleRepoIDs ps totalStat
     else (case Patch_DiffStat p of
        None \<Rightarrow> Inl (PatchHasNoDiffStat (Patch_ID p))
      | Some s \<Rightarrow> sumDiffStats accessibleRepoIDs ps (AddStat totalStat s)))"

text \<open>
  \<open>store.ListPatches\<close> and \<open>db.Repos.GetByIDs\<close> are the collaborators, passed as
  \<open>ListPatches\<close> (its patches or its error) and \<open>GetByIDs\<close>.
\<close>

definition patchSetDiffStat ::
  "(ListPatchesOpts \<Rightarrow> error + ('n::monoid_add) Patch list) \<Rightarrow> (int list \<Rightarrow> error + Repo list) \<Rightarrow>
   ListPatchesOpts \<Rightarrow> error + 'n Stat" where
  "patchSetDiffStat ListPatches GetByIDs opts =
    (let noDiffOpts = opts\<lparr>NoDiff := True\<rparr> in
     case ListPatches noDiffOpts of
       Inl e \<Rightarrow> Inl e
     | Inr patches \<Rightarrow>
        let repoIDs = map Patch_RepoID patches in
        (case GetByIDs repoIDs of
           Inl e \<Rightarrow> Inl e
         | Inr accessibleRepos \<Rightarrow>
            let accessibleRepoIDs = set (map Repo_ID accessibleRepos) in
            sumDiffStats accessibleRepoIDs patches zeroStat))"

text \<open>The sum of the diff stats of a list of patches that all have one.\<close>

definition statTotal :: "('n::monoid_add) Patch list \<Rightarrow> 'n Stat" where
  "statTotal ps =
    \<lparr>Added = sum_list (map (\<lambda>p. Added (the (Patch_DiffStat p))) ps),
     Changed = sum_list (map (\<lambda>p. Changed (the (Patch_DiffStat p))) ps),
     Deleted = sum_list (map (\<lambda>p. Deleted (the (Patch_DiffStat p))) ps)\<rparr>"

text \<open>The patches whose repository is among those that \<open>GetByIDs\<close> returned: the visible ones.\<close>

definition visiblePatches :: "Repo list \<Rightarrow> 'n Patch list \<Rightarrow> 'n Patch list" where
  "visiblePatches repos patches = filter (\<lambda>p. Patch_RepoID p \<in> set (map Repo_ID repos)) patches"

section \<open>SyncChangeset and ChangesetByID\<close>

type_synonym graphql_ID = string

record SyncChangesetArgs =
  Changeset :: graphql_ID

datatype EmptyResponse = EmptyResponse

text \<open>
  \<open>unmarshalChangesetID\<close> (declared in another file of the package) and the service's
  \<open>EnqueueChangesetSync\<close> are parameters. The service acts on the store and the queue: their
  state is \<open>'st\<close>, passed in and returned. The tracing span of the function is not modelled.
\<close>

definition SyncChangeset ::
  "(graphql_ID \<Rightarrow> error + int) \<Rightarrow> (int \<Rightarrow> 'st \<Rightarrow> error option \<times> 'st) \<Rightarrow>
   SyncChangesetArgs \<Rightarrow> 'st \<Rightarrow> (error + EmptyResponse) \<times> 'st" where
  "SyncChangeset unmarshalChangesetID EnqueueChangesetSync args st =
    (case unmarshalChangesetID (Changeset args) of
       Inl e \<Rightarrow> (Inl e, st)
     | Inr changesetID \<Rightarrow>
        if changesetID = 0 then (Inl ErrIDIsZero, st)
        else (case EnqueueChangesetSync changesetID st of
            (Some e, st') \<Rightarrow> (Inl e, st')
          | (None, st') \<Rightarrow> (Inr EmptyResponse, st')))"

text \<open>
  Modelled from the spec: a \<open>campaigns.Changeset\<close> has an "identity, target repository, ..."
  (the struct is declared outside the sources at hand; the resolver reads \<open>RepoID\<close> only).
\<close>

record Changeset_rec =
  Changeset_ID :: int
  Changeset_RepoID :: int

text \<open>
  The two implementers of the interface \<open>ChangesetResolver\<close>: the full variant with its
  preloaded repository, and the hidden one.
\<close>

datatype ChangesetResolver =
    changesetResolver Changeset_rec Repo
  | hiddenChangesetResolver Changeset_rec

text \<open>The method sets of the three interfaces, as they are declared.\<close>

definition ChangesetResolver_methods :: "string list" where
  "ChangesetResolver_methods =
    [''ID'', ''CreatedAt'', ''UpdatedAt'', ''NextSyncAt'', ''State'', ''Campaigns'',
     ''ToExternalChangeset'', ''ToHiddenExternalChangeset'']"

definition HiddenExternalChangesetResolver_methods :: "string list" where
  "HiddenExternalChangesetResolver_methods = ChangesetResolver_methods"

definition ExternalChangesetResolver_only :: "string list" where
  "ExternalChangesetResolver_only =
    [''ExternalID'', ''Title'', ''Body'', ''ExternalURL'', ''ReviewState'', ''CheckState'',
     ''Repository'', ''Events'', ''Diff'', ''Head'', ''Base'', ''Labels'']"

definition ExternalChangesetResolver_methods :: "string list" where
  "ExternalChangesetResolver_methods = ChangesetResolver_methods @ ExternalChangesetResolver_only"

fun methods :: "ChangesetResolver \<Rightarrow> string list" where
  "methods (changesetResolver c r) = ExternalChangesetResolver_methods"
| "methods (hiddenChangesetResolver c) = HiddenExternalChangesetResolver_methods"

text \<open>
  What \<open>ChangesetByID\<close> calls outside the sources at hand: the site configuration, the
  site-admin check, the id decoder, the store and the repository lookup (which filters by
  the viewer's permissions).
\<close>

record Collaborators =
  CampaignsReadAccessEnabled :: bool
  CheckCurrentUserIsSiteAdmin :: "error option"
  unmarshalChangesetID :: "graphql_ID \<Rightarrow> error + int"
  GetChangeset :: "int \<Rightarrow> error + Changeset_rec"
  Repos_Get :: "int \<Rightarrow> error + Repo"

text \<open>Modelled from the spec: \<open>errcode.IsNotFound\<close> holds of the errors that report not-found.\<close>

fun IsNotFound :: "error \<Rightarrow> bool" where
  "IsNotFound (NotFoundError m) = True"
| "IsNotFound e = False"

definition allowReadAccess :: "Collaborators \<Rightarrow> error option" where
  "allowReadAccess env =
    (if CampaignsReadAccessEnabled env then None
     else (case CheckCurrentUserIsSiteAdmin env of Some e \<Rightarrow> Some e | None \<Rightarrow> None))"

text \<open>The result is the pair \<open>(resolver, err)\<close> of Go: \<open>Inr None\<close> is \<open>(nil, nil)\<close>.\<close>

definition ChangesetByID :: "Collaborators \<Rightarrow> graphql_ID \<Rightarrow> error + ChangesetResolver option" where
  "ChangesetByID env gid =
    (case allowReadAccess env of
       Some e \<Rightarrow> Inl e
     | None \<Rightarrow>
        (case unmarshalChangesetID env gid of
           Inl e \<Rightarrow> Inl e
         | Inr changesetID \<Rightarrow>
            if changesetID = 0 then Inr None
            else (case GetChangeset env changesetID of
                Inl e \<Rightarrow> if e = ErrNoResults then Inr None else Inl e
              | Inr changeset \<Rightarrow>
                 (case Repos_Get env (Changeset_RepoID changeset) of
                    Inl e \<Rightarrow> if IsNotFound e then Inr (Some (hiddenChangesetResolver changeset)) else Inl e
                  | Inr repo \<Rightarrow> Inr (Some (changesetResolver changeset repo))))))"

section \<open>The diff engine: fileDiffConnectionCompute\<close>

text \<open>
  The cursor is decoded by \<open>strconv.ParseInt(s, 0, 32)\<close> of Go's standard library. The
  model follows the library's \<open>ParseInt\<close>, \<open>ParseUint\<close> and \<open>underscoreOK\<close> with the call's
  constants: with base 0 the base is taken from the prefix (\<open>0b\<close>, \<open>0o\<close>, \<open>0x\<close>, a leading
  \<open>0\<close> for octal, decimal otherwise) and underscores may separate digits; with bit size 32
  the value must fit an \<open>int32\<close>. The accumulator of \<open>ParseUint\<close> is a \<open>uint64\<close>.
\<close>

datatype NumError = ErrSyntax | ErrRange

text \<open>\<open>lower(c)\<close> is \<open>c | ('x' - 'X')\<close>: it sets the bit of value 32.\<close>

fun lower :: "char \<Rightarrow> char" where
  "lower (Char b0 b1 b2 b3 b4 b5 b6 b7) = Char b0 b1 b2 b3 b4 True b6 b7"

definition byte :: "char \<Rightarrow> nat" where
  "byte c = of_char c"

definition isDigit :: "char \<Rightarrow> bool" where
  "isDigit c = (byte CHR ''0'' \<le> byte c \<and> byte c \<le> byte CHR ''9'')"

text \<open>
  What the loop of \<open>ParseUint\<close> does with one byte \<open>c\<close> that is not a skipped underscore:
  the digit \<open>d\<close> of \<open>c\<close> is added to the value \<open>n\<close> so far, in \<open>uint64\<close> arithmetic.
\<close>

definition addDigit :: "nat \<Rightarrow> nat \<Rightarrow> char \<Rightarrow> NumError + nat" where
  "addDigit base n c =
    (if \<not> (isDigit c \<or> (byte CHR ''a'' \<le> byte (lower c) \<and> byte (lower c) \<le> byte CHR ''z''))
       then Inl ErrSyntax
     else
       let d = (if isDigit c then byte c - byte CHR ''0'' else byte (lower c) - byte CHR ''a'' + 10) in
       if d \<ge> base then Inl ErrSyntax
       else if n \<ge> (2 ^ 64 - 1) div base + 1 then Inl ErrRange
       else
         let n0 = (n * base) mod 2 ^ 64;
             n1 = (n0 + d) mod 2 ^ 64
         in if n1 < n0 \<or> n1 > 2 ^ 32 - 1 then Inl ErrRange
            else Inr n1)"

text \<open>
  The loop of \<open>ParseUint\<close> over the bytes after the prefix, for base 0: \<open>n\<close> is the value so
  far, \<open>underscores\<close> whether an underscore was skipped.
\<close>

fun parseDigits :: "nat \<Rightarrow> string \<Rightarrow> nat \<Rightarrow> bool \<Rightarrow> NumError + nat \<times> bool" where
  "parseDigits base [] n underscores = Inr (n, underscores)"
| "parseDigits base (c # cs) n underscores =
    (if c = CHR ''_'' then parseDigits base cs n True
     else (case addDigit base n c of
        Inl e \<Rightarrow> Inl e
      | Inr n1 \<Rightarrow> parseDigits base cs n1 underscores))"

fun underscoreLoop :: "bool \<Rightarrow> char \<Rightarrow> string \<Rightarrow> bool" where
  "underscoreLoop hex saw [] = (saw \<noteq> CHR ''_'')"
| "underscoreLoop hex saw (c # cs) =
    (if isDigit c \<or> hex \<and> byte CHR ''a'' \<le> byte (lower c) \<and> byte (lower c) \<le> byte CHR ''f''
       then underscoreLoop hex CHR ''0'' cs
     else if c = CHR ''_'' then (if saw \<noteq> CHR ''0'' then False else underscoreLoop hex CHR ''_'' cs)
     else if saw = CHR ''_'' then False
     else underscoreLoop hex CHR ''!'' cs)"

definition underscoreOK :: "string \<Rightarrow> bool" where
  "underscoreOK s0 =
    (let s = (if length s0 \<ge> 1 \<and> (hd s0 = CHR ''-'' \<or> hd s0 = CHR ''+'') then tl s0 else s0) in
     if length s \<ge> 2 \<and> hd s = CHR ''0'' \<and>
        (lower (s ! 1) = CHR ''b'' \<or> lower (s ! 1) = CHR ''o'' \<or> lower (s ! 1) = CHR ''x'')
     then underscoreLoop (lower (s ! 1) = CHR ''x'') CHR ''0'' (drop 2 s)
     else underscoreLoop False CHR ''^'' s)"

definition ParseUint :: "string \<Rightarrow> NumError + nat" where
  "ParseUint s0 =
    (if s0 = [] then Inl ErrSyntax
     else
       let (base, s) =
         (if hd s0 = CHR ''0'' then
            (if length s0 \<ge> 3 \<and> lower (s0 ! 1) = CHR ''b'' then (2, drop 2 s0)
             else if length s0 \<ge> 3 \<and> lower (s0 ! 1) = CHR ''o'' then (8, drop 2 s0)
             else if length s0 \<ge> 3 \<and> lower (s0 ! 1) = CHR ''x'' then (16, drop 2 s0)
             else (8, tl s0))
          else (10, s0))
       in (case parseDigits base s 0 False of
             Inl e \<Rightarrow> Inl e
           | Inr (n, underscores) \<Rightarrow>
               if underscores \<and> \<not> underscoreOK s0 then Inl ErrSyntax else Inr n))"

definition ParseInt :: "string \<Rightarrow> NumError + int" where
  "ParseInt s0 =
    (if s0 = [] then Inl ErrSyntax
     else
       let neg = (hd s0 = CHR ''-'');
           s = (if hd s0 = CHR ''+'' \<or> hd s0 = CHR ''-'' then tl s0 else s0)
       in (case ParseUint s of
             Inl ErrSyntax \<Rightarrow> Inl ErrSyntax
           | r \<Rightarrow>
               let un = (case r of Inr n \<Rightarrow> n | Inl e \<Rightarrow> 2 ^ 32 - 1);
                   cutoff = 2 ^ 31
               in if \<not> neg \<and> un \<ge> cutoff then Inl ErrRange
                  else if neg \<and> un > cutoff then Inl ErrRange
                  else Inr (if neg then - int un else int un)))"

text \<open>
  Modelled from the spec: the caller of the computation (not among the sources at hand)
  serialises the next cursor, "a non-negative integer offset serialized as a string", as
  \<open>strconv.Itoa\<close> does: in decimal, with a minus sign for a negative number.
\<close>

fun digits10 :: "nat \<Rightarrow> string" where
  "digits10 n = (if n < 10 then [char_of (48 + n)] else digits10 (n div 10) @ [char_of (48 + n mod 10)])"

declare digits10.simps [simp del]

definition Itoa :: "int \<Rightarrow> string" where
  "Itoa i = (if i < 0 then CHR ''-'' # digits10 (nat (- i)) else digits10 (nat i))"

text \<open>
  The types of go-diff that the resolvers use (declared in the library): a hunk with the
  line where it starts in the original file and its body, and a file diff with its hunks.
\<close>

record Hunk =
  OrigStartLine :: int
  Body :: string

record FileDiff =
  OrigName :: string
  NewName :: string
  Hunks :: "Hunk list"

text \<open>
  A \<open>diff.MultiFileDiffReader\<close> is modelled by what its successive \<open>ReadFile\<close> calls
  return: a file diff, or an error of the parser; once the list is used up every call
  returns \<open>io.EOF\<close>. The parser of go-diff itself is the parameter \<open>NewMultiFileDiffReader\<close>,
  from the diff text to such a reader.
\<close>

type_synonym MultiFileDiffReader = "(error + FileDiff) list"

record FileDiffsConnectionArgs =
  First :: "int option"
  After :: "string option"

text \<open>
  The variables that the closure captures: the \<open>sync.Once\<close> (done or not) and the four
  results. \<open>readFileCalls\<close> is a ghost variable, absent from the source: it counts the calls
  of \<open>dr.ReadFile()\<close> made so far.
\<close>

record closure =
  onceDone :: bool
  fileDiffs :: "FileDiff list"
  afterIdx :: int
  hasNextPage :: bool
  err :: "error option"
  readFileCalls :: nat

text \<open>
  The \<open>for\<close> loop: one equation for each outcome of \<open>dr.ReadFile()\<close>. When the number of
  file diffs read reaches \<open>totalAmount\<close>, one more call decides \<open>hasNextPage\<close>.
\<close>

fun readFiles :: "int \<Rightarrow> MultiFileDiffReader \<Rightarrow> closure \<Rightarrow> closure" where
  "readFiles totalAmount [] c = c\<lparr>err := None, readFileCalls := readFileCalls c + 1\<rparr>"
| "readFiles totalAmount (Inl e # dr) c = c\<lparr>err := Some e, readFileCalls := readFileCalls c + 1\<rparr>"
| "readFiles totalAmount (Inr fileDiff # dr) c =
    (let c = c\<lparr>fileDiffs := fileDiffs c @ [fileDiff], err := None, readFileCalls := readFileCalls c + 1\<rparr> in
     if int (length (fileDiffs c)) = totalAmount then
       (case dr of
          [] \<Rightarrow> c\<lparr>err := None, readFileCalls := readFileCalls c + 1\<rparr>
        | Inl e # dr' \<Rightarrow> c\<lparr>err := Some e, readFileCalls := readFileCalls c + 1\<rparr>
        | Inr next # dr' \<Rightarrow> c\<lparr>hasNextPage := True, err := None, readFileCalls := readFileCalls c + 1\<rparr>)
     else readFiles totalAmount dr c)"

text \<open>
  The function passed to \<open>once.Do\<close>. The \<open>err\<close> that \<open>strconv.ParseInt\<close> assigns is declared
  by \<open>:=\<close> inside the \<open>if\<close> block, so it is not the captured \<open>err\<close>: when the cursor does
  not parse, the function returns and leaves every captured variable as it was.
\<close>

definition onceBody ::
  "(string \<Rightarrow> MultiFileDiffReader) \<Rightarrow> 'n Patch \<Rightarrow> FileDiffsConnectionArgs \<Rightarrow> closure \<Rightarrow> closure" where
  "onceBody NewMultiFileDiffReader patch args c =
    (case (case After args of
             None \<Rightarrow> Inr c
           | Some a \<Rightarrow>
              (case ParseInt a of
                 Inl e \<Rightarrow> Inl e
               | Inr parsedIdx \<Rightarrow> Inr (c\<lparr>afterIdx := int32 (if parsedIdx < 0 then 0 else parsedIdx)\<rparr>))) of
       Inl e \<Rightarrow> c
     | Inr c \<Rightarrow>
        let totalAmount = afterIdx c;
            totalAmount = (case First args of None \<Rightarrow> totalAmount | Some f \<Rightarrow> int32 (totalAmount + f));
            dr = NewMultiFileDiffReader (Patch_Diff patch)
        in readFiles totalAmount dr c)"

text \<open>
  \<open>fileDiffConnectionCompute patch\<close> returns the closure with its variables at their zero
  values; \<open>invoke\<close> is one call of it, which returns the four captured results and the
  closure as the call leaves it.
\<close>

definition fileDiffConnectionCompute :: closure where
  "fileDiffConnectionCompute =
    \<lparr>onceDone = False, fileDiffs = [], afterIdx = 0, hasNextPage = False, err = None, readFileCalls = 0\<rparr>"

definition invoke ::
  "(string \<Rightarrow> MultiFileDiffReader) \<Rightarrow> 'n Patch \<Rightarrow> FileDiffsConnectionArgs \<Rightarrow> closure \<Rightarrow>
   (FileDiff list \<times> int \<times> bool \<times> error option) \<times> closure" where
  "invoke NewMultiFileDiffReader patch args c =
    (let c = (if onceDone c then c else (onceBody NewMultiFileDiffReader patch args c)\<lparr>onceDone := True\<rparr>)
     in ((fileDiffs c, afterIdx c, hasNextPage c, err c), c))"

text \<open>A sequence of calls of one closure, with the results in order.\<close>

fun invokeAll ::
  "(string \<Rightarrow> MultiFileDiffReader) \<Rightarrow> 'n Patch \<Rightarrow> FileDiffsConnectionArgs list \<Rightarrow> closure \<Rightarrow>
   (FileDiff list \<times> int \<times> bool \<times> error option) list \<times> closure" where
  "invokeAll rd patch [] c = ([], c)"
| "invokeAll rd patch (args # rest) c =
    (let (r, c) = invoke rd patch args c; (rs, c) = invokeAll rd patch rest c in (r # rs, c))"

text \<open>
  Modelled from the spec: the connection resolver that calls the computation is not among
  the sources at hand. It serves "the file-diffs \<open>[cursor, cursor+limit)\<close>": of the file
  diffs read, those from \<open>afterIdx\<close> on; and the next cursor is \<open>afterIdx + first\<close>, as a
  string. \<open>page\<close> is one request served by a resolver of its own (a fresh closure).
\<close>

definition page ::
  "(string \<Rightarrow> MultiFileDiffReader) \<Rightarrow> 'n Patch \<Rightarrow> FileDiffsConnectionArgs \<Rightarrow>
   FileDiff list \<times> int \<times> bool \<times> error option" where
  "page rd patch args = fst (invoke rd patch args fileDiffConnectionCompute)"

definition window :: "FileDiff list \<times> int \<times> bool \<times> error option \<Rightarrow> FileDiff list" where
  "window r = (case r of (fds, idx, hasNext, e) \<Rightarrow> drop (nat idx) fds)"

text \<open>
  A client that pages through a patch with page size \<open>n\<close>: it requests the page after the
  cursor, and while \<open>hasNextPage\<close> is set requests the next one, at most \<open>fuel\<close> requests in
  all. \<open>None\<close>: the fuel ran out. An error of a request ends the walk with that error.
\<close>

fun pages ::
  "(string \<Rightarrow> MultiFileDiffReader) \<Rightarrow> 'n Patch \<Rightarrow> int \<Rightarrow> nat \<Rightarrow> string \<Rightarrow> (error + FileDiff list) option" where
  "pages rd patch n 0 cursor = None"
| "pages rd patch n (Suc fuel) cursor =
    (case page rd patch \<lparr>First = Some n, After = Some cursor\<rparr> of
       (fds, idx, hasNext, Some e) \<Rightarrow> Some (Inl e)
     | (fds, idx, hasNext, None) \<Rightarrow>
        if hasNext then
          (case pages rd patch n fuel (Itoa (int32 (idx + n))) of
             None \<Rightarrow> None
           | Some (Inl e) \<Rightarrow> Some (Inl e)
           | Some (Inr rest) \<Rightarrow> Some (Inr (window (fds, idx, hasNext, None) @ rest)))
        else Some (Inr (window (fds, idx, hasNext, None))))"

text \<open>The whole patch in one request with neither limit nor cursor.\<close>

definition whole :: "(string \<Rightarrow> MultiFileDiffReader) \<Rightarrow> 'n Patch \<Rightarrow> error + FileDiff list" where
  "whole rd patch =
    (case page rd patch \<lparr>First = None, After = None\<rparr> of
       (fds, idx, hasNext, Some e) \<Rightarrow> Inl e
     | (fds, idx, hasNext, None) \<Rightarrow> Inr (window (fds, idx, hasNext, None)))"

text \<open>The effective offset of a request: zero without a cursor, the clamped cursor otherwise.\<close>

definition effectiveOffset :: "FileDiffsConnectionArgs \<Rightarrow> int option" where
  "effectiveOffset args =
    (case After args of
       None \<Rightarrow> Some 0
     | Some a \<Rightarrow> (case ParseInt a of Inl e \<Rightarrow> None | Inr p \<Rightarrow> Some (if p < 0 then 0 else p)))"

text \<open>
  Two views of a reader for the proofs: the file diffs that it yields before its first
  error, and that error (\<open>None\<close> when it ends with \<open>io.EOF\<close>).
\<close>

fun recs :: "MultiFileDiffReader \<Rightarrow> FileDiff list" where
  "recs [] = []"
| "recs (Inl e # dr) = []"
| "recs (Inr fd # dr) = fd # recs dr"

fun firstErr :: "MultiFileDiffReader \<Rightarrow> error option" where
  "firstErr [] = None"
| "firstErr (Inl e # dr) = Some e"
| "firstErr (Inr fd # dr) = firstErr dr"

text \<open>Example data: three file diffs without hunks, and a patch.\<close>

definition fileA :: FileDiff where
  "fileA = \<lparr>OrigName = ''a.txt'', NewName = ''a.txt'', Hunks = []\<rparr>"
definition fileB :: FileDiff where
  "fileB = \<lparr>OrigName = ''b.txt'', NewName = ''b.txt'', Hunks = []\<rparr>"
definition fileC :: FileDiff where
  "fileC = \<lparr>OrigName = ''c.txt'', NewName = ''c.txt'', Hunks = []\<rparr>"
definition examplePatch :: "nat Patch" where
  "examplePatch = \<lparr>Patch_ID = 1, Patch_RepoID = 1, Patch_Diff = ''diff'', Patch_DiffStat = None\<rparr>"

section \<open>applyPatch\<close>

text \<open>
  A slice expression or an index out of range panics in Go; the model returns the panic
  as a value.
\<close>

datatype panic = IndexOutOfRange | SliceBoundsOutOfRange

text \<open>
  \<open>strings.Split(s, "\n")\<close> and \<open>strings.Join(lines, "\n")\<close> of Go's standard library:
  \<open>Split\<close> yields one more piece than there are newlines, so at least one.
\<close>

fun Split :: "string \<Rightarrow> string list" where
  "Split [] = [[]]"
| "Split (c # cs) =
    (if c = CHR 0x0A then [] # Split cs
     else (case Split cs of [] \<Rightarrow> [[c]] | l # ls \<Rightarrow> (c # l) # ls))"

fun Join :: "string list \<Rightarrow> string" where
  "Join [] = []"
| "Join [l] = l"
| "Join (l # ls) = l @ CHR 0x0A # Join ls"

text \<open>\<open>strings.HasPrefix(line, p)\<close> for a prefix \<open>p\<close> of one byte.\<close>

definition HasPrefix :: "string \<Rightarrow> char \<Rightarrow> bool" where
  "HasPrefix line c = (line \<noteq> [] \<and> hd line = c)"

text \<open>
  \<open>xs[i]\<close> and \<open>xs[lo:hi]\<close> on a slice whose capacity is its length, as the one that
  \<open>strings.Split\<close> returns; \<open>xs[lo:]\<close> is \<open>xs[lo:len(xs)]\<close>.
\<close>

definition index :: "'a list \<Rightarrow> int \<Rightarrow> panic + 'a" where
  "index xs i = (if 0 \<le> i \<and> i < int (length xs) then Inr (xs ! nat i) else Inl IndexOutOfRange)"

definition slice :: "'a list \<Rightarrow> int \<Rightarrow> int \<Rightarrow> panic + 'a list" where
  "slice xs lo hi =
    (if 0 \<le> lo \<and> lo \<le> hi \<and> hi \<le> int (length xs) then Inr (take (nat (hi - lo)) (drop (nat lo) xs))
     else Inl SliceBoundsOutOfRange)"

text \<open>
  The inner loop over the lines of a hunk's body: the new lines so far and the cursor
  \<open>lastLine\<close> (an \<open>int32\<close>, the number of the next original line) are passed along.
\<close>

fun applyHunkLines :: "string list \<Rightarrow> string list \<Rightarrow> string list \<Rightarrow> int \<Rightarrow> panic + string list \<times> int" where
  "applyHunkLines contentLines [] newContentLines lastLine = Inr (newContentLines, lastLine)"
| "applyHunkLines contentLines (line # hunkLines) newContentLines lastLine =
    (if line = [] then applyHunkLines contentLines hunkLines newContentLines lastLine
     else if HasPrefix line CHR ''-'' then
       applyHunkLines contentLines hunkLines newContentLines (int32 (lastLine + 1))
     else if HasPrefix line CHR ''+'' then
       applyHunkLines contentLines hunkLines (newContentLines @ [tl line]) lastLine
     else (case index contentLines (int32 (lastLine - 1)) of
        Inl p \<Rightarrow> Inl p
      | Inr original \<Rightarrow>
          applyHunkLines contentLines hunkLines (newContentLines @ [original]) (int32 (lastLine + 1))))"

text \<open>The loop over the hunks: first the hole before the hunk, then its lines.\<close>

fun applyHunks :: "string list \<Rightarrow> Hunk list \<Rightarrow> string list \<Rightarrow> int \<Rightarrow> panic + string list \<times> int" where
  "applyHunks contentLines [] newContentLines lastLine = Inr (newContentLines, lastLine)"
| "applyHunks contentLines (hunk # hunks) newContentLines lastLine =
    (case (if OrigStartLine hunk \<noteq> 0 \<and> OrigStartLine hunk \<noteq> lastLine then
             (case slice contentLines (int32 (lastLine - 1)) (int32 (OrigStartLine hunk - 1)) of
                Inl p \<Rightarrow> Inl p
              | Inr originalLines \<Rightarrow>
                  Inr (newContentLines @ originalLines,
                       int32 (lastLine + int32 (int (length originalLines)))))
           else Inr (newContentLines, lastLine)) of
       Inl p \<Rightarrow> Inl p
     | Inr (newContentLines, lastLine) \<Rightarrow>
        (case applyHunkLines contentLines (Split (Body hunk)) newContentLines lastLine of
           Inl p \<Rightarrow> Inl p
         | Inr (newContentLines, lastLine) \<Rightarrow> applyHunks contentLines hunks newContentLines lastLine))"

definition applyPatch :: "string \<Rightarrow> FileDiff \<Rightarrow> panic + string" where
  "applyPatch fileContent fileDiff =
    (let contentLines = Split fileContent in
     case applyHunks contentLines (Hunks fileDiff) [] 1 of
       Inl p \<Rightarrow> Inl p
     | Inr (newContentLines, lastLine) \<Rightarrow>
        let origLines = int32 (int (length contentLines)) in
        if origLines > 0 \<and> origLines \<noteq> lastLine then
          (case slice contentLines (int32 (lastLine - 1)) (int (length contentLines)) of
             Inl p \<Rightarrow> Inl p
           | Inr rest \<Rightarrow> Inr (Join (newContentLines @ rest)))
        else Inr (Join newContentLines))"

text \<open>
  The number of original lines that a hunk's body goes over: its removal and context
  lines, that is the lines that are neither empty nor additions.
\<close>

fun origSpan :: "string list \<Rightarrow> nat" where
  "origSpan [] = 0"
| "origSpan (line # hunkLines) =
    (if line = [] \<or> HasPrefix line CHR ''+'' then origSpan hunkLines else Suc (origSpan hunkLines))"

text \<open>
  The precondition on the hunks, for a base of \<open>n\<close> lines and a cursor \<open>lastLine\<close>: the
  hunks are in ascending order of original lines (each starts at the cursor or after it,
  that is after every line the hunks before it go over; a hunk with \<open>OrigStartLine = 0\<close>
  starts at the cursor), and every original line a hunk goes over exists in the base (a
  hunk may end at line \<open>n\<close>, and one that only adds may stand right after it).
\<close>

fun hunksInBounds :: "int \<Rightarrow> int \<Rightarrow> Hunk list \<Rightarrow> bool" where
  "hunksInBounds n lastLine [] = True"
| "hunksInBounds n lastLine (hunk # hunks) =
    (let start = (if OrigStartLine hunk = 0 then lastLine else OrigStartLine hunk);
         next = start + int (origSpan (Split (Body hunk)))
     in lastLine \<le> start \<and> next \<le> n + 1 \<and> hunksInBounds n next hunks)"

text \<open>The same for \<open>applyPatch\<close>; line numbers are \<open>int32\<close>, so the base has fewer than \<open>2^31 - 1\<close> lines.\<close>

definition hunksAscendingWithinBase :: "string \<Rightarrow> FileDiff \<Rightarrow> bool" where
  "hunksAscendingWithinBase fileContent fileDiff =
    (let n = int (length (Split fileContent))
     in n + 1 < 2 ^ 31 \<and> hunksInBounds n 1 (Hunks fileDiff))"

text \<open>
  The patch application as the specification words it, for comparison with \<open>applyPatch\<close>:
  between hunks the untouched original lines are copied; in a hunk a removal line advances
  the cursor, an addition line emits its content, any other non-empty line emits the
  original line under the cursor and advances; after the last hunk all remaining original
  lines are appended. \<open>endCursor\<close> is where the cursor stands after the last hunk.
\<close>

fun emitted :: "string list \<Rightarrow> string list \<Rightarrow> int \<Rightarrow> string list" where
  "emitted contentLines [] cursor = []"
| "emitted contentLines (line # hunkLines) cursor =
    (if line = [] then emitted contentLines hunkLines cursor
     else if hd line = CHR ''-'' then emitted contentLines hunkLines (cursor + 1)
     else if hd line = CHR ''+'' then tl line # emitted contentLines hunkLines cursor
     else contentLines ! nat (cursor - 1) # emitted contentLines hunkLines (cursor + 1))"

fun specLines :: "string list \<Rightarrow> Hunk list \<Rightarrow> int \<Rightarrow> string list" where
  "specLines contentLines [] cursor = drop (nat (cursor - 1)) contentLines"
| "specLines contentLines (hunk # hunks) cursor =
    (let start = (if OrigStartLine hunk = 0 then cursor else OrigStartLine hunk) in
     take (nat (start - cursor)) (drop (nat (cursor - 1)) contentLines) @
     emitted contentLines (Split (Body hunk)) start @
     specLines contentLines hunks (start + int (origSpan (Split (Body hunk)))))"

definition applyPatch_spec :: "string \<Rightarrow> FileDiff \<Rightarrow> string" where
  "applyPatch_spec fileContent fileDiff = Join (specLines (Split fileContent) (Hunks fileDiff) 1)"

fun endCursor :: "Hunk list \<Rightarrow> int \<Rightarrow> int" where
  "endCursor [] cursor = cursor"
| "endCursor (hunk # hunks) cursor =
    endCursor hunks ((if OrigStartLine hunk = 0 then cursor else OrigStartLine hunk) +
      int (origSpan (Split (Body hunk))))"

text \<open>
  The example of the specification: a base of twelve lines, a first hunk that replaces
  line 3 and a second one that adds a line after line 10 and goes on to line 12.
\<close>

definition base12 :: string where
  "base12 = Join [''l1'', ''l2'', ''l3'', ''l4'', ''l5'', ''l6'', ''l7'', ''l8'', ''l9'', ''l10'', ''l11'', ''l12'']"

definition twoHunks :: FileDiff where
  "twoHunks = \<lparr>OrigName = ''f'', NewName = ''f'', Hunks =
     [\<lparr>OrigStartLine = 3, Body = ''-l3\<newline>+L3\<newline>''\<rparr>,
      \<lparr>OrigStartLine = 11, Body = ''+new\<newline> l11\<newline> l12\<newline>''\<rparr>]\<rparr>"

section \<open>Theorems\<close>

subsection \<open>listChangesetOptsFromArgs\<close>

text \<open>
  C1. For every \<open>ListChangesetsArgs\<close> value, whatever the three enum sets are:
  \<^item> nil args give the zero options, \<open>optsSafe = true\<close> and no error;
  \<^item> when a \<open>ReviewState\<close> or a \<open>CheckState\<close> filter is present, \<open>optsSafe\<close> is false;
  \<^item> when neither is present and \<open>State\<close> is absent or valid, \<open>optsSafe\<close> is true and there is
    no error;
  \<^item> when any present \<open>State\<close>, \<open>ReviewState\<close> or \<open>CheckState\<close> value is outside its valid set,
    an error is returned together with \<open>optsSafe = false\<close>; otherwise there is no error.
\<close>

theorem listChangesetOptsFromArgs_safe:
  "listChangesetOptsFromArgs vS vR vC None = (zeroOpts, True, None) \<and>
   (argReviewState a \<noteq> None \<or> argCheckState a \<noteq> None \<longrightarrow>
      fst (snd (listChangesetOptsFromArgs vS vR vC (Some a))) = False) \<and>
   (argReviewState a = None \<and> argCheckState a = None \<and> \<not> invalidFilter vS (argState a) \<longrightarrow>
      snd (listChangesetOptsFromArgs vS vR vC (Some a)) = (True, None)) \<and>
   (invalidFilter vS (argState a) \<or> invalidFilter vR (argReviewState a) \<or> invalidFilter vC (argCheckState a) \<longrightarrow>
      fst (snd (listChangesetOptsFromArgs vS vR vC (Some a))) = False \<and>
      snd (snd (listChangesetOptsFromArgs vS vR vC (Some a))) \<noteq> None) \<and>
   (\<not> invalidFilter vS (argState a) \<and> \<not> invalidFilter vR (argReviewState a) \<and> \<not> invalidFilter vC (argCheckState a) \<longrightarrow>
      snd (snd (listChangesetOptsFromArgs vS vR vC (Some a))) = None)"
  by (simp add: listChangesetOptsFromArgs_def invalidFilter_def Let_def split: option.splits)

theorem listChangesetOptsFromArgs_safe_witness:
  "snd (listChangesetOptsFromArgs (\<lambda>s. s \<in> set [''OPEN'', ''CLOSED'']) (\<lambda>s. s = ''APPROVED'') (\<lambda>s. s = ''PASSED'')
      (Some \<lparr>argFirst = Some 10, argState = Some ''OPEN'', argReviewState = None, argCheckState = None\<rparr>))
     = (True, None) \<and>
   fst (snd (listChangesetOptsFromArgs (\<lambda>s. s \<in> set [''OPEN'', ''CLOSED'']) (\<lambda>s. s = ''APPROVED'') (\<lambda>s. s = ''PASSED'')
      (Some \<lparr>argFirst = None, argState = Some ''OPEN'', argReviewState = Some ''APPROVED'', argCheckState = None\<rparr>)))
     = False \<and>
   snd (snd (listChangesetOptsFromArgs (\<lambda>s. s \<in> set [''OPEN'', ''CLOSED'']) (\<lambda>s. s = ''APPROVED'') (\<lambda>s. s = ''PASSED'')
      (Some \<lparr>argFirst = None, argState = Some ''OPEN'', argReviewState = None, argCheckState = Some ''BOGUS''\<rparr>)))
     \<noteq> None"
  using
    listChangesetOptsFromArgs_safe [of "\<lambda>s. s \<in> set [''OPEN'', ''CLOSED'']" "\<lambda>s. s = ''APPROVED''" "\<lambda>s. s = ''PASSED''"
      "\<lparr>argFirst = Some 10, argState = Some ''OPEN'', argReviewState = None, argCheckState = None\<rparr>"]
    listChangesetOptsFromArgs_safe [of "\<lambda>s. s \<in> set [''OPEN'', ''CLOSED'']" "\<lambda>s. s = ''APPROVED''" "\<lambda>s. s = ''PASSED''"
      "\<lparr>argFirst = None, argState = Some ''OPEN'', argReviewState = Some ''APPROVED'', argCheckState = None\<rparr>"]
    listChangesetOptsFromArgs_safe [of "\<lambda>s. s \<in> set [''OPEN'', ''CLOSED'']" "\<lambda>s. s = ''APPROVED''" "\<lambda>s. s = ''PASSED''"
      "\<lparr>argFirst = None, argState = Some ''OPEN'', argReviewState = None, argCheckState = Some ''BOGUS''\<rparr>"]
  by (simp add: invalidFilter_def)


subsection \<open>patchSetDiffStat\<close>

lemma AddStat_zero: "AddStat zeroStat s = (s :: ('n::monoid_add) Stat)"
  by (simp add: AddStat_def zeroStat_def)

lemma statTotal_Cons:
  "Patch_DiffStat p = Some s \<Longrightarrow> AddStat t (statTotal (p # ps)) = AddStat (AddStat t s) (statTotal ps)"
  by (simp add: AddStat_def statTotal_def add.assoc)

lemma sumDiffStats_eq:
  "sumDiffStats A ps t =
    (case find (\<lambda>p. Patch_DiffStat p = None) (filter (\<lambda>p. Patch_RepoID p \<in> A) ps) of
       Some p \<Rightarrow> Inl (PatchHasNoDiffStat (Patch_ID p))
     | None \<Rightarrow> Inr (AddStat t (statTotal (filter (\<lambda>p. Patch_RepoID p \<in> A) ps))))"
proof (induction ps arbitrary: t)
  case Nil
  show ?case by (simp add: statTotal_def AddStat_def zeroStat_def)
next
  case (Cons p ps)
  show ?case
  proof (cases "Patch_RepoID p \<in> A")
    case False
    then show ?thesis using Cons.IH by (simp split: option.split)
  next
    case True
    show ?thesis
    proof (cases "Patch_DiffStat p")
      case None
      then show ?thesis using True by simp
    next
      case (Some s)
      then show ?thesis using True Cons.IH [of "AddStat t s"] statTotal_Cons [OF Some]
        by (simp split: option.splits)
    qed
  qed
qed

text \<open>
  C2. Whenever the store returns a list of patches and the repository lookup returns the
  repositories the caller may see, \<open>patchSetDiffStat\<close> looks at the visible patches only
  (the others are skipped and contribute nothing): if one of them lacks a precomputed diff
  stat, the result is the error naming the first such patch, not a total; otherwise the
  result is the sum of the diff stats of exactly the visible patches.
\<close>

theorem patchSetDiffStat_visible:
  assumes "ListPatches (opts\<lparr>NoDiff := True\<rparr>) = Inr patches"
    and "GetByIDs (map Patch_RepoID patches) = Inr repos"
  shows "patchSetDiffStat ListPatches GetByIDs opts =
      (case find (\<lambda>p. Patch_DiffStat p = None) (visiblePatches repos patches) of
         Some p \<Rightarrow> Inl (PatchHasNoDiffStat (Patch_ID p))
       | None \<Rightarrow> Inr (statTotal (visiblePatches repos patches)))"
  using assms
  by (simp add: patchSetDiffStat_def sumDiffStats_eq visiblePatches_def AddStat_zero split: option.split)

theorem patchSetDiffStat_visible_witness:
  "patchSetDiffStat
     (\<lambda>opts. if NoDiff opts then Inr
        [\<lparr>Patch_ID = 1, Patch_RepoID = 10, Patch_Diff = [], Patch_DiffStat = Some \<lparr>Added = 1, Changed = 2, Deleted = 3\<rparr>\<rparr>,
         \<lparr>Patch_ID = 2, Patch_RepoID = 20, Patch_Diff = [], Patch_DiffStat = None\<rparr>,
         \<lparr>Patch_ID = 3, Patch_RepoID = 30, Patch_Diff = [], Patch_DiffStat = Some \<lparr>Added = 4, Changed = 5, Deleted = 6\<rparr>\<rparr>]
        else Inl (Error ''diff requested''))
     (\<lambda>ids. Inr [\<lparr>Repo_ID = 10\<rparr>, \<lparr>Repo_ID = 30\<rparr>])
     \<lparr>NoDiff = False\<rparr>
   = Inr \<lparr>Added = 5 :: nat, Changed = 7, Deleted = 9\<rparr>"
  using patchSetDiffStat_visible [of
     "\<lambda>opts. if NoDiff opts then Inr
        [\<lparr>Patch_ID = 1, Patch_RepoID = 10, Patch_Diff = [], Patch_DiffStat = Some \<lparr>Added = 1 :: nat, Changed = 2, Deleted = 3\<rparr>\<rparr>,
         \<lparr>Patch_ID = 2, Patch_RepoID = 20, Patch_Diff = [], Patch_DiffStat = None\<rparr>,
         \<lparr>Patch_ID = 3, Patch_RepoID = 30, Patch_Diff = [], Patch_DiffStat = Some \<lparr>Added = 4, Changed = 5, Deleted = 6\<rparr>\<rparr>]
        else Inl (Error ''diff requested'')"
     "\<lparr>NoDiff = False\<rparr>"
     "[\<lparr>Patch_ID = 1, Patch_RepoID = 10, Patch_Diff = [], Patch_DiffStat = Some \<lparr>Added = 1, Changed = 2, Deleted = 3\<rparr>\<rparr>,
       \<lparr>Patch_ID = 2, Patch_RepoID = 20, Patch_Diff = [], Patch_DiffStat = None\<rparr>,
       \<lparr>Patch_ID = 3, Patch_RepoID = 30, Patch_Diff = [], Patch_DiffStat = Some \<lparr>Added = 4, Changed = 5, Deleted = 6\<rparr>\<rparr>]"
     "\<lambda>ids. Inr [\<lparr>Repo_ID = 10\<rparr>, \<lparr>Repo_ID = 30\<rparr>]"
     "[\<lparr>Repo_ID = 10\<rparr>, \<lparr>Repo_ID = 30\<rparr>]"]
  by (simp add: visiblePatches_def statTotal_def)


subsection \<open>SyncChangeset\<close>

text \<open>
  C8. For every \<open>SyncChangeset\<close> call, whatever the decoder and the service do: an id that
  unmarshals to zero is rejected with \<open>ErrIDIsZero\<close>, and a token that does not unmarshal
  is rejected with the decoder's error, both with the state of store and queue untouched
  (the service is not called); for an id that unmarshals to a non-zero value the service
  is called with that id on the state at hand, the state returned is the one the service
  leaves, and the result is the service's error or, when it returns none, the response; so
  the call returns a response if and only if the id unmarshals to a non-zero value and
  enqueueing it returns no error, and then the enqueueing has taken place.
\<close>

theorem SyncChangeset_validates:
  "(u (Changeset args) = Inr 0 \<longrightarrow> SyncChangeset u enq args st = (Inl ErrIDIsZero, st)) \<and>
   (u (Changeset args) = Inl e \<longrightarrow> SyncChangeset u enq args st = (Inl e, st)) \<and>
   (u (Changeset args) = Inr cid \<and> cid \<noteq> 0 \<longrightarrow>
      SyncChangeset u enq args st =
        ((case fst (enq cid st) of Some x \<Rightarrow> Inl x | None \<Rightarrow> Inr EmptyResponse), snd (enq cid st))) \<and>
   (fst (SyncChangeset u enq args st) = Inr EmptyResponse \<longleftrightarrow>
      (\<exists>i. u (Changeset args) = Inr i \<and> i \<noteq> 0 \<and> fst (enq i st) = None \<and>
           snd (SyncChangeset u enq args st) = snd (enq i st)))"
  by (auto simp: SyncChangeset_def split: sum.splits prod.splits option.splits)

theorem SyncChangeset_validates_witness:
  "SyncChangeset (\<lambda>t. if t = ''zero'' then Inr 0 else if t = ''seven'' then Inr 7 else Inl (Error ''bad id''))
     (\<lambda>cid q. if cid = 7 then (None, cid # q) else (Some (Error ''queue full''), q)) \<lparr>Changeset = ''zero''\<rparr> [] = (Inl ErrIDIsZero, []) \<and>
   SyncChangeset (\<lambda>t. if t = ''zero'' then Inr 0 else if t = ''seven'' then Inr 7 else Inl (Error ''bad id''))
     (\<lambda>cid q. if cid = 7 then (None, cid # q) else (Some (Error ''queue full''), q)) \<lparr>Changeset = ''???''\<rparr> [] = (Inl (Error ''bad id''), []) \<and>
   SyncChangeset (\<lambda>t. if t = ''zero'' then Inr 0 else if t = ''seven'' then Inr 7 else Inl (Error ''bad id''))
     (\<lambda>cid q. if cid = 7 then (None, cid # q) else (Some (Error ''queue full''), q)) \<lparr>Changeset = ''seven''\<rparr> [] = (Inr EmptyResponse, [7])"
  using
    SyncChangeset_validates [where u = "\<lambda>t. if t = ''zero'' then Inr 0 else if t = ''seven'' then Inr 7 else Inl (Error ''bad id'')"
      and args = "\<lparr>Changeset = ''zero''\<rparr>" and enq = "\<lambda>cid q. if cid = 7 then (None, cid # q) else (Some (Error ''queue full''), q)" and st = "[]" and e = "Error ''bad id''" and cid = 7]
    SyncChangeset_validates [where u = "\<lambda>t. if t = ''zero'' then Inr 0 else if t = ''seven'' then Inr 7 else Inl (Error ''bad id'')"
      and args = "\<lparr>Changeset = ''???''\<rparr>" and enq = "\<lambda>cid q. if cid = 7 then (None, cid # q) else (Some (Error ''queue full''), q)" and st = "[]" and e = "Error ''bad id''" and cid = 7]
    SyncChangeset_validates [where u = "\<lambda>t. if t = ''zero'' then Inr 0 else if t = ''seven'' then Inr 7 else Inl (Error ''bad id'')"
      and args = "\<lparr>Changeset = ''seven''\<rparr>" and enq = "\<lambda>cid q. if cid = 7 then (None, cid # q) else (Some (Error ''queue full''), q)" and st = "[]" and e = "Error ''bad id''" and cid = 7]
  by simp

subsection \<open>ChangesetByID\<close>

text \<open>
  C9. For every \<open>ChangesetByID\<close> call of a caller whom \<open>allowReadAccess\<close> admits: an id that
  unmarshals to zero, and a non-zero id for which the store returns \<open>ErrNoResults\<close>, give
  the empty result (no resolver, no error); a changeset that exists but whose repository
  lookup reports not-found gives the hidden variant of that changeset (not an error, not
  the empty result, not the full variant), whose interface is the common
  \<open>ChangesetResolver\<close> one and has none of the methods of the full variant.
\<close>

theorem ChangesetByID_hidden:
  assumes "allowReadAccess env = None"
  shows "(unmarshalChangesetID env gid = Inr 0 \<longrightarrow> ChangesetByID env gid = Inr None) \<and>
    (unmarshalChangesetID env gid = Inr cid \<and> cid \<noteq> 0 \<and> GetChangeset env cid = Inl ErrNoResults \<longrightarrow>
       ChangesetByID env gid = Inr None) \<and>
    (unmarshalChangesetID env gid = Inr cid \<and> cid \<noteq> 0 \<and> GetChangeset env cid = Inr cs \<and>
     Repos_Get env (Changeset_RepoID cs) = Inl e \<and> IsNotFound e \<longrightarrow>
       ChangesetByID env gid = Inr (Some (hiddenChangesetResolver cs)) \<and>
       methods (hiddenChangesetResolver cs) = ChangesetResolver_methods \<and>
       set (methods (hiddenChangesetResolver cs)) \<inter> set ExternalChangesetResolver_only = {})"
  using assms
  by (simp add: ChangesetByID_def HiddenExternalChangesetResolver_methods_def
      ChangesetResolver_methods_def ExternalChangesetResolver_only_def)

theorem ChangesetByID_hidden_witness:
  "ChangesetByID
     \<lparr>CampaignsReadAccessEnabled = True, CheckCurrentUserIsSiteAdmin = Some (Error ''must be site admin''),
      unmarshalChangesetID = (\<lambda>t. if t = ''zero'' then Inr 0 else if t = ''seven'' then Inr 7 else Inr 8),
      GetChangeset = (\<lambda>i. if i = 7 then Inr \<lparr>Changeset_ID = 7, Changeset_RepoID = 70\<rparr> else Inl ErrNoResults),
      Repos_Get = (\<lambda>r. Inl (NotFoundError ''repo not found''))\<rparr> ''zero'' = Inr None \<and>
   ChangesetByID
     \<lparr>CampaignsReadAccessEnabled = True, CheckCurrentUserIsSiteAdmin = Some (Error ''must be site admin''),
      unmarshalChangesetID = (\<lambda>t. if t = ''zero'' then Inr 0 else if t = ''seven'' then Inr 7 else Inr 8),
      GetChangeset = (\<lambda>i. if i = 7 then Inr \<lparr>Changeset_ID = 7, Changeset_RepoID = 70\<rparr> else Inl ErrNoResults),
      Repos_Get = (\<lambda>r. Inl (NotFoundError ''repo not found''))\<rparr> ''eight'' = Inr None \<and>
   ChangesetByID
     \<lparr>CampaignsReadAccessEnabled = True, CheckCurrentUserIsSiteAdmin = Some (Error ''must be site admin''),
      unmarshalChangesetID = (\<lambda>t. if t = ''zero'' then Inr 0 else if t = ''seven'' then Inr 7 else Inr 8),
      GetChangeset = (\<lambda>i. if i = 7 then Inr \<lparr>Changeset_ID = 7, Changeset_RepoID = 70\<rparr> else Inl ErrNoResults),
      Repos_Get = (\<lambda>r. Inl (NotFoundError ''repo not found''))\<rparr> ''seven''
     = Inr (Some (hiddenChangesetResolver \<lparr>Changeset_ID = 7, Changeset_RepoID = 70\<rparr>))"
proof -
  let ?env = "\<lparr>CampaignsReadAccessEnabled = True, CheckCurrentUserIsSiteAdmin = Some (Error ''must be site admin''),
      unmarshalChangesetID = (\<lambda>t. if t = ''zero'' then Inr 0 else if t = ''seven'' then Inr 7 else Inr 8),
      GetChangeset = (\<lambda>i. if i = 7 then Inr \<lparr>Changeset_ID = 7, Changeset_RepoID = 70\<rparr> else Inl ErrNoResults),
      Repos_Get = (\<lambda>r. Inl (NotFoundError ''repo not found''))\<rparr>"
  have ok: "allowReadAccess ?env = None"
    by (simp add: allowReadAccess_def)
  show ?thesis
    using ChangesetByID_hidden [OF ok, of "''zero''" 0 "\<lparr>Changeset_ID = 7, Changeset_RepoID = 70\<rparr>" "NotFoundError ''repo not found''"]
      ChangesetByID_hidden [OF ok, of "''eight''" 8 "\<lparr>Changeset_ID = 7, Changeset_RepoID = 70\<rparr>" "NotFoundError ''repo not found''"]
      ChangesetByID_hidden [OF ok, of "''seven''" 7 "\<lparr>Changeset_ID = 7, Changeset_RepoID = 70\<rparr>" "NotFoundError ''repo not found''"]
    by simp
qed

subsection \<open>The read loop\<close>

lemma readFiles_afterIdx [simp]: "afterIdx (readFiles T dr c) = afterIdx c"
  by (induction T dr c rule: readFiles.induct) (auto simp: Let_def split: list.splits sum.splits)

lemma readFiles_onceDone [simp]: "onceDone (readFiles T dr c) = onceDone c"
  by (induction T dr c rule: readFiles.induct) (auto simp: Let_def split: list.splits sum.splits)

lemma readFiles_fileDiffs:
  "fileDiffs (readFiles T dr c) =
     fileDiffs c @ (if 0 < T - int (length (fileDiffs c)) then take (nat (T - int (length (fileDiffs c)))) (recs dr) else recs dr)"
proof (induction T dr c rule: readFiles.induct)
  case (3 T fd dr c)
  show ?case
  proof (cases "int (length (fileDiffs c)) + 1 = T")
    case True
    then show ?thesis by (auto simp: Let_def split: list.splits sum.splits)
  next
    case False
    then have "readFiles T (Inr fd # dr) c =
        readFiles T dr (c\<lparr>fileDiffs := fileDiffs c @ [fd], err := None, readFileCalls := readFileCalls c + 1\<rparr>)"
      by (simp add: Let_def)
    moreover have "fileDiffs (readFiles T dr (c\<lparr>fileDiffs := fileDiffs c @ [fd], err := None, readFileCalls := readFileCalls c + 1\<rparr>)) =
        (fileDiffs c @ [fd]) @ (if 0 < T - int (length (fileDiffs c @ [fd])) then take (nat (T - int (length (fileDiffs c @ [fd])))) (recs dr) else recs dr)"
      using 3 [OF refl] False by (simp add: Let_def)
    ultimately show ?thesis using False
      by (auto simp: take_Cons' nat_diff_distrib' nat_add_distrib)
  qed
qed simp_all

lemma readFiles_hasNextPage:
  "hasNextPage (readFiles T dr c) =
     (hasNextPage c \<or> (0 < T - int (length (fileDiffs c)) \<and> T - int (length (fileDiffs c)) < int (length (recs dr))))"
proof (induction T dr c rule: readFiles.induct)
  case (3 T fd dr c)
  show ?case
  proof (cases "int (length (fileDiffs c)) + 1 = T")
    case True
    then show ?thesis by (auto simp: Let_def split: list.splits sum.splits)
  next
    case False
    then have "readFiles T (Inr fd # dr) c =
        readFiles T dr (c\<lparr>fileDiffs := fileDiffs c @ [fd], err := None, readFileCalls := readFileCalls c + 1\<rparr>)"
      by (simp add: Let_def)
    moreover have "hasNextPage (readFiles T dr (c\<lparr>fileDiffs := fileDiffs c @ [fd], err := None, readFileCalls := readFileCalls c + 1\<rparr>)) =
        (hasNextPage c \<or> (0 < T - int (length (fileDiffs c @ [fd])) \<and> T - int (length (fileDiffs c @ [fd])) < int (length (recs dr))))"
      using 3 [OF refl] False by (simp add: Let_def)
    ultimately show ?thesis using False by auto
  qed
qed auto

lemma readFiles_err:
  "err (readFiles T dr c) =
     (if 0 < T - int (length (fileDiffs c)) \<and> T - int (length (fileDiffs c)) < int (length (recs dr))
      then None else firstErr dr)"
proof (induction T dr c rule: readFiles.induct)
  case (3 T fd dr c)
  show ?case
  proof (cases "int (length (fileDiffs c)) + 1 = T")
    case True
    then show ?thesis by (auto simp: Let_def split: list.splits sum.splits)
  next
    case False
    then have "readFiles T (Inr fd # dr) c =
        readFiles T dr (c\<lparr>fileDiffs := fileDiffs c @ [fd], err := None, readFileCalls := readFileCalls c + 1\<rparr>)"
      by (simp add: Let_def)
    moreover have "err (readFiles T dr (c\<lparr>fileDiffs := fileDiffs c @ [fd], err := None, readFileCalls := readFileCalls c + 1\<rparr>)) =
        (if 0 < T - int (length (fileDiffs c @ [fd])) \<and> T - int (length (fileDiffs c @ [fd])) < int (length (recs dr))
         then None else firstErr dr)"
      using 3 [OF refl] False by (simp add: Let_def)
    ultimately show ?thesis using False by auto
  qed
qed simp_all

lemma readFiles_readFileCalls:
  "readFileCalls (readFiles T dr c) =
     readFileCalls c +
     (if 0 < T - int (length (fileDiffs c)) \<and> T - int (length (fileDiffs c)) \<le> int (length (recs dr))
      then nat (T - int (length (fileDiffs c))) + 1 else length (recs dr) + 1)"
proof (induction T dr c rule: readFiles.induct)
  case (3 T fd dr c)
  show ?case
  proof (cases "int (length (fileDiffs c)) + 1 = T")
    case True
    then show ?thesis by (auto simp: Let_def split: list.splits sum.splits)
  next
    case False
    then have "readFiles T (Inr fd # dr) c =
        readFiles T dr (c\<lparr>fileDiffs := fileDiffs c @ [fd], err := None, readFileCalls := readFileCalls c + 1\<rparr>)"
      by (simp add: Let_def)
    moreover have "readFileCalls (readFiles T dr (c\<lparr>fileDiffs := fileDiffs c @ [fd], err := None, readFileCalls := readFileCalls c + 1\<rparr>)) =
        (readFileCalls c + 1) +
        (if 0 < T - int (length (fileDiffs c @ [fd])) \<and> T - int (length (fileDiffs c @ [fd])) \<le> int (length (recs dr))
         then nat (T - int (length (fileDiffs c @ [fd]))) + 1 else length (recs dr) + 1)"
      using 3 [OF refl] False by (simp add: Let_def)
    ultimately show ?thesis using False by (auto simp: nat_diff_distrib')
  qed
qed simp_all

lemma int32_id: "is_int32 x \<Longrightarrow> int32 x = x"
  by (simp add: is_int32_def int32_def)

lemma int32_0 [simp]: "int32 0 = 0"
  by (simp add: int32_def)

lemma ParseInt_range: "ParseInt s = Inr p \<Longrightarrow> is_int32 p"
  by (auto simp: ParseInt_def is_int32_def Let_def split: if_splits sum.splits NumError.splits)

lemma invoke_done:
  "onceDone c \<Longrightarrow> invoke rd patch args c = ((fileDiffs c, afterIdx c, hasNextPage c, err c), c)"
  by (simp add: invoke_def)

lemma invoke_onceDone: "onceDone (snd (invoke rd patch args c))"
  by (simp add: invoke_def Let_def)

lemma invoke_fst: "fst (invoke rd patch args c) =
  (fileDiffs (snd (invoke rd patch args c)), afterIdx (snd (invoke rd patch args c)),
   hasNextPage (snd (invoke rd patch args c)), err (snd (invoke rd patch args c)))"
  by (simp add: invoke_def Let_def)

lemma invokeAll_done:
  "onceDone c \<Longrightarrow>
   invokeAll rd patch as c = (replicate (length as) (fileDiffs c, afterIdx c, hasNextPage c, err c), c)"
  by (induction as) (simp_all add: invoke_done)

lemma recs_map_Inr [simp]: "recs (map Inr fds) = fds"
  by (induction fds) simp_all

lemma firstErr_map_Inr [simp]: "firstErr (map Inr fds) = None"
  by (induction fds) simp_all

lemma readFiles_map_Inr_fresh:
  assumes "fileDiffs c = []" "\<not> hasNextPage c" "1 \<le> T"
  shows "readFiles T (map Inr fds) c =
    c\<lparr>fileDiffs := take (nat T) fds, hasNextPage := (T < int (length fds)), err := None,
      readFileCalls := readFileCalls c + min (nat T) (length fds) + 1\<rparr>"
proof (rule closure.equality)
  show "fileDiffs (readFiles T (map Inr fds) c) = fileDiffs (c\<lparr>fileDiffs := take (nat T) fds, hasNextPage := (T < int (length fds)), err := None,
      readFileCalls := readFileCalls c + min (nat T) (length fds) + 1\<rparr>)"
    using assms by (simp add: readFiles_fileDiffs)
  show "hasNextPage (readFiles T (map Inr fds) c) = hasNextPage (c\<lparr>fileDiffs := take (nat T) fds, hasNextPage := (T < int (length fds)), err := None,
      readFileCalls := readFileCalls c + min (nat T) (length fds) + 1\<rparr>)"
    using assms by (simp add: readFiles_hasNextPage)
  show "err (readFiles T (map Inr fds) c) = err (c\<lparr>fileDiffs := take (nat T) fds, hasNextPage := (T < int (length fds)), err := None,
      readFileCalls := readFileCalls c + min (nat T) (length fds) + 1\<rparr>)"
    using assms by (simp add: readFiles_err)
  show "readFileCalls (readFiles T (map Inr fds) c) = readFileCalls (c\<lparr>fileDiffs := take (nat T) fds, hasNextPage := (T < int (length fds)), err := None,
      readFileCalls := readFileCalls c + min (nat T) (length fds) + 1\<rparr>)"
    using assms by (auto simp: readFiles_readFileCalls min_def)
qed simp_all

lemma int32_wrap:
  assumes "0 \<le> c" "c < 2 ^ 31" "is_int32 n" "1 \<le> c + n"
  shows "(c + n < 2 ^ 31 \<and> int32 (c + n) = c + n) \<or> (2 ^ 31 \<le> c + n \<and> int32 (c + n) < 0)"
proof (cases "c + n < 2 ^ 31")
  case True
  then show ?thesis using assms by (simp add: int32_id is_int32_def)
next
  case False
  have "(c + n + 2 ^ 31) mod 2 ^ 32 = c + n + 2 ^ 31 - 2 ^ 32"
    using assms False by (simp add: mod_pos_geq is_int32_def)
  then show ?thesis using assms False by (simp add: int32_def is_int32_def)
qed

lemma readFiles_map_Inr_unlimited:
  assumes "fileDiffs c = []" "\<not> hasNextPage c" "T \<le> 0"
  shows "readFiles T (map Inr fds) c =
    c\<lparr>fileDiffs := fds, hasNextPage := False, err := None,
      readFileCalls := readFileCalls c + length fds + 1\<rparr>"
proof (rule closure.equality)
  show "fileDiffs (readFiles T (map Inr fds) c) = fileDiffs (c\<lparr>fileDiffs := fds, hasNextPage := False, err := None,
      readFileCalls := readFileCalls c + length fds + 1\<rparr>)"
    using assms by (simp add: readFiles_fileDiffs)
  show "hasNextPage (readFiles T (map Inr fds) c) = hasNextPage (c\<lparr>fileDiffs := fds, hasNextPage := False, err := None,
      readFileCalls := readFileCalls c + length fds + 1\<rparr>)"
    using assms by (simp add: readFiles_hasNextPage)
  show "err (readFiles T (map Inr fds) c) = err (c\<lparr>fileDiffs := fds, hasNextPage := False, err := None,
      readFileCalls := readFileCalls c + length fds + 1\<rparr>)"
    using assms by (simp add: readFiles_err)
  show "readFileCalls (readFiles T (map Inr fds) c) = readFileCalls (c\<lparr>fileDiffs := fds, hasNextPage := False, err := None,
      readFileCalls := readFileCalls c + length fds + 1\<rparr>)"
    using assms by (simp add: readFiles_readFileCalls)
qed simp_all

subsection \<open>Cursor strings\<close>

lemma byte_digit: "d < 10 \<Longrightarrow> byte (char_of (48 + d)) = 48 + d"
  by (simp add: byte_def)

lemma char_of_eq_byte: "n < 256 \<Longrightarrow> (char_of (n :: nat) = c) = (n = byte c)"
  by (simp add: char_of_eq_iff take_bit_eq_mod byte_def)

lemma digit_not_underscore: "d < 10 \<Longrightarrow> char_of (48 + d :: nat) \<noteq> CHR ''_''"
  by (simp add: char_of_eq_byte) (simp add: byte_def)

lemma digit_not_minus: "d < 10 \<Longrightarrow> char_of (48 + d :: nat) \<noteq> CHR ''-''"
  by (simp add: char_of_eq_byte) (simp add: byte_def)

lemma digit_not_plus: "d < 10 \<Longrightarrow> char_of (48 + d :: nat) \<noteq> CHR ''+''"
  by (simp add: char_of_eq_byte) (simp add: byte_def)

lemma digit_zero_iff: "d < 10 \<Longrightarrow> char_of (48 + d :: nat) = CHR ''0'' \<Longrightarrow> d = 0"
  by (simp add: char_of_eq_byte) (simp add: byte_def)

lemma digit_isDigit: "d < 10 \<Longrightarrow> isDigit (char_of (48 + d :: nat))"
  by (simp add: isDigit_def byte_digit) (simp add: byte_def)

lemma addDigit_digit:
  assumes "d < 10" and "n < 2 ^ 32"
  shows "addDigit 10 n (char_of (48 + d)) =
    (if n * 10 + d > 2 ^ 32 - 1 then Inl ErrRange else Inr (n * 10 + d))"
proof -
  have a: "(n * 10) mod 2 ^ 64 = n * 10" using assms(2) by simp
  have b: "(n * 10 + d) mod 2 ^ 64 = n * 10 + d" using assms by simp
  have c: "\<not> n \<ge> (2 ^ 64 - 1) div 10 + 1" using assms(2) by simp
  have e: "byte (char_of (48 + d)) - byte CHR ''0'' = d"
    using assms(1) by (simp add: byte_digit) (simp add: byte_def)
  show ?thesis
    using assms(1) a b c e digit_isDigit [OF assms(1)]
    by (simp add: addDigit_def Let_def del: One_nat_def)
qed

lemma parseDigits_append:
  "parseDigits b (xs @ ys) n u =
    (case parseDigits b xs n u of Inl e \<Rightarrow> Inl e | Inr (m, u') \<Rightarrow> parseDigits b ys m u')"
  by (induction xs arbitrary: n u) (simp_all split: sum.splits)

lemma parseDigits_digits10:
  "k < 2 ^ 32 \<Longrightarrow> parseDigits 10 (digits10 k) 0 False = Inr (k, False)"
proof (induction k rule: digits10.induct)
  case (1 k)
  show ?case
  proof (cases "k < 10")
    case True
    then show ?thesis
      using addDigit_digit [of k 0] digit_not_underscore [of k] by (simp add: digits10.simps [of k])
  next
    case False
    have q: "k div 10 < 2 ^ 32" using "1.prems" by simp
    have ih: "parseDigits 10 (digits10 (k div 10)) 0 False = Inr (k div 10, False)"
      using "1.IH" [OF False q] .
    have m: "k mod 10 < 10" by simp
    have kk: "k div 10 * 10 + k mod 10 = k" by simp
    have "parseDigits 10 (digits10 k) 0 False = parseDigits 10 [char_of (48 + k mod 10)] (k div 10) False"
      using False ih by (simp add: digits10.simps [of k] parseDigits_append)
    also have "\<dots> = Inr (k, False)"
      using addDigit_digit [OF m q] digit_not_underscore [OF m] "1.prems" kk by simp
    finally show ?thesis .
  qed
qed

lemma digits10_nonempty: "digits10 k \<noteq> []"
  by (subst digits10.simps) simp

lemma hd_digits10: "\<exists>d::nat. d < 10 \<and> hd (digits10 k) = char_of (48 + d) \<and> (d = 0 \<longrightarrow> k = 0)"
proof (induction k rule: digits10.induct)
  case (1 k)
  show ?case
  proof (cases "k < 10")
    case True
    then show ?thesis by (subst digits10.simps) auto
  next
    case False
    then obtain d :: nat where d: "d < 10" "hd (digits10 (k div 10)) = char_of (48 + d)" "d = 0 \<longrightarrow> k div 10 = 0"
      using "1.IH" by blast
    have "hd (digits10 k) = hd (digits10 (k div 10))"
      using False digits10_nonempty [of "k div 10"] by (subst digits10.simps) simp
    then show ?thesis using d False by (intro exI [of _ d]) auto
  qed
qed

lemma digits10_0: "digits10 0 = ''0''"
  by (simp add: digits10.simps char_of_eq_byte) (simp add: byte_def)

lemma ParseUint_digits10: "k < 2 ^ 32 \<Longrightarrow> ParseUint (digits10 k) = Inr k"
proof (cases "k = 0")
  case True
  then show ?thesis by (simp add: digits10_0 ParseUint_def)
next
  case False
  assume k: "k < 2 ^ 32"
  obtain d :: nat where d: "d < 10" "hd (digits10 k) = char_of (48 + d)" "d = 0 \<longrightarrow> k = 0"
    using hd_digits10 by blast
  have "hd (digits10 k) \<noteq> CHR ''0''"
    using d False digit_zero_iff [of d] by auto
  then show ?thesis
    using parseDigits_digits10 [OF k] digits10_nonempty [of k] by (simp add: ParseUint_def)
qed

lemma ParseInt_Itoa: "0 \<le> i \<Longrightarrow> i < 2 ^ 31 \<Longrightarrow> ParseInt (Itoa i) = Inr i"
proof -
  assume i: "0 \<le> i" "i < 2 ^ 31"
  obtain d :: nat where d: "d < 10" "hd (digits10 (nat i)) = char_of (48 + d)"
    using hd_digits10 by blast
  have s: "hd (digits10 (nat i)) \<noteq> CHR ''+''" "hd (digits10 (nat i)) \<noteq> CHR ''-''"
    using d digit_not_plus digit_not_minus by auto
  have n: "nat i < 2 ^ 32" using i by (simp add: nat_less_iff)
  have n31: "nat i < 2 ^ 31" using i by (simp add: nat_less_iff)
  show ?thesis
    using i s n31 ParseUint_digits10 [OF n] digits10_nonempty [of "nat i"]
    by (simp add: ParseInt_def Itoa_def Let_def)
qed

subsection \<open>Memoisation\<close>

text \<open>
  C4. For a fixed patch, whatever the first call's arguments and those of the later calls
  are: every call of the closure returns exactly what the first call returned (file diffs,
  cursor, hasNextPage and error, also when that error is a parse error), and the closure is
  after the last call as the first call left it, so no later call reads from the diff
  again (\<open>readFileCalls\<close> stays as it was).
\<close>

theorem invoke_memoized:
  "invokeAll rd patch (args # rest) fileDiffConnectionCompute =
     (replicate (Suc (length rest)) (fst (invoke rd patch args fileDiffConnectionCompute)),
      snd (invoke rd patch args fileDiffConnectionCompute))"
proof -
  obtain r c where rc: "invoke rd patch args fileDiffConnectionCompute = (r, c)"
    by (cases "invoke rd patch args fileDiffConnectionCompute")
  have d: "onceDone c" using invoke_onceDone [of rd patch args fileDiffConnectionCompute] rc by simp
  have r: "r = (fileDiffs c, afterIdx c, hasNextPage c, err c)"
    using invoke_fst [of rd patch args fileDiffConnectionCompute] rc by simp
  show ?thesis
    using rc r invokeAll_done [OF d, of rd patch rest] by simp
qed

theorem invoke_memoized_witness:
  "invokeAll (\<lambda>d. [Inr fileA, Inl (Error ''bad hunk'')]) examplePatch
     [\<lparr>First = Some 5, After = None\<rparr>, \<lparr>First = Some 1, After = Some ''1''\<rparr>] fileDiffConnectionCompute =
   ([([fileA], 0, False, Some (Error ''bad hunk'')), ([fileA], 0, False, Some (Error ''bad hunk''))],
    \<lparr>onceDone = True, fileDiffs = [fileA], afterIdx = 0, hasNextPage = False,
     err = Some (Error ''bad hunk''), readFileCalls = 2\<rparr>)"
proof -
  have first: "invoke (\<lambda>d. [Inr fileA, Inl (Error ''bad hunk'')]) examplePatch \<lparr>First = Some 5, After = None\<rparr>
      fileDiffConnectionCompute =
    (([fileA], 0, False, Some (Error ''bad hunk'')),
     \<lparr>onceDone = True, fileDiffs = [fileA], afterIdx = 0, hasNextPage = False,
      err = Some (Error ''bad hunk''), readFileCalls = 2\<rparr>)"
    by (simp add: invoke_def onceBody_def fileDiffConnectionCompute_def Let_def int32_def)
  show ?thesis
    using invoke_memoized [of "\<lambda>d. [Inr fileA, Inl (Error ''bad hunk'')]" examplePatch
        "\<lparr>First = Some 5, After = None\<rparr>" "[\<lparr>First = Some 1, After = Some ''1''\<rparr>]"]
    by (simp only: first fst_conv snd_conv) simp
qed

subsection \<open>Cursors\<close>

text \<open>
  C3 as stated does not hold: a malformed cursor is not clamped to offset zero. The cursor
  \<open>abc\<close> does not parse, and the request for one file diff after it returns no file diff at
  all (and no error), whereas the first page holds \<open>fileA\<close>.
\<close>

theorem malformed_cursor_empty:
  "ParseInt ''abc'' = Inl ErrSyntax \<and>
   page (\<lambda>d. [Inr fileA, Inr fileB]) examplePatch \<lparr>First = Some 1, After = Some ''abc''\<rparr> = ([], 0, False, None) \<and>
   page (\<lambda>d. [Inr fileA, Inr fileB]) examplePatch \<lparr>First = Some 1, After = None\<rparr> = ([fileA], 0, True, None)"
proof -
  have p: "ParseInt ''abc'' = Inl ErrSyntax"
    by (simp add: ParseInt_def ParseUint_def addDigit_def isDigit_def byte_def)
  show ?thesis
    by (simp add: p page_def invoke_def onceBody_def fileDiffConnectionCompute_def Let_def int32_def)
qed

text \<open>
  C3, amended. For every pagination request whose cursor string parses (as a 32-bit
  integer) to a negative number, the offset is clamped to zero: the request is served
  exactly as the same request without a cursor, that is as page one.
\<close>

theorem negative_cursor_clamped:
  assumes "After args = Some a" and "ParseInt a = Inr p" and "p < 0"
  shows "invoke rd patch args fileDiffConnectionCompute =
           invoke rd patch (args\<lparr>After := None\<rparr>) fileDiffConnectionCompute \<and>
         afterIdx (snd (invoke rd patch args fileDiffConnectionCompute)) = 0"
  using assms
  by (simp add: invoke_def onceBody_def fileDiffConnectionCompute_def Let_def)

theorem negative_cursor_clamped_witness:
  "invoke (\<lambda>d. [Inr fileA, Inr fileB]) examplePatch \<lparr>First = Some 1, After = Some ''-5''\<rparr> fileDiffConnectionCompute =
     invoke (\<lambda>d. [Inr fileA, Inr fileB]) examplePatch \<lparr>First = Some 1, After = None\<rparr> fileDiffConnectionCompute \<and>
   afterIdx (snd (invoke (\<lambda>d. [Inr fileA, Inr fileB]) examplePatch \<lparr>First = Some 1, After = Some ''-5''\<rparr>
     fileDiffConnectionCompute)) = 0"
proof -
  have p: "ParseInt ''-5'' = Inr (- 5)"
    by (simp add: ParseInt_def ParseUint_def addDigit_def isDigit_def byte_def)
  show ?thesis
    by (rule negative_cursor_clamped [of "\<lparr>First = Some 1, After = Some ''-5''\<rparr>" "''-5''" "- 5"
        "\<lambda>d. [Inr fileA, Inr fileB]" examplePatch, simplified, OF p])
qed

subsection \<open>Reading up to the limit\<close>

text \<open>
  C6 as stated does not hold for a request whose offset and limit add up to zero: with
  \<open>first = 0\<close> and no cursor, on a patch of two file diffs, the computation reads both of
  them and then the end of the stream (three reads, both file diffs materialised), and
  \<open>hasNextPage\<close> is false although a first record exists.
\<close>

theorem zero_limit_reads_all:
  "effectiveOffset \<lparr>First = Some 0, After = None\<rparr> = Some 0 \<and>
   invoke (\<lambda>d. [Inr fileA, Inr fileB]) examplePatch \<lparr>First = Some 0, After = None\<rparr> fileDiffConnectionCompute =
     (([fileA, fileB], 0, False, None),
      \<lparr>onceDone = True, fileDiffs = [fileA, fileB], afterIdx = 0, hasNextPage = False, err = None,
       readFileCalls = 3\<rparr>)"
  by (simp add: effectiveOffset_def invoke_def onceBody_def fileDiffConnectionCompute_def Let_def)

text \<open>
  C6, amended. For a patch of \<open>K\<close> file-diff records (\<open>fds\<close>, fewer than \<open>2^31\<close>) and a
  request with effective offset \<open>c\<close> and limit \<open>n\<close> (an \<open>int32\<close>) such that \<open>1 \<le> c + n\<close>:
  the computation reads records until \<open>c + n\<close> of them are consumed, then exactly one
  further \<open>ReadFile\<close> call decides \<open>hasNextPage\<close>, which is true if and only if a record
  number \<open>c + n + 1\<close> exists, and nothing beyond is read; when fewer than \<open>c + n\<close> records
  exist, all \<open>K\<close> are read (and the end of the stream) and \<open>hasNextPage\<close> is false. In
  numbers of \<open>ReadFile\<close> calls: \<open>min (c + n) K + 1\<close>.
\<close>

theorem page_reads_one_more:
  assumes "NewMultiFileDiffReader (Patch_Diff patch) = map Inr fds"
    and "length fds < 2 ^ 31"
    and "effectiveOffset args = Some c"
    and "First args = Some n" and "is_int32 n"
    and "1 \<le> c + n"
  shows "invoke NewMultiFileDiffReader patch args fileDiffConnectionCompute =
    ((take (nat (c + n)) fds, c, c + n < int (length fds), None),
     \<lparr>onceDone = True, fileDiffs = take (nat (c + n)) fds, afterIdx = c,
      hasNextPage = (c + n < int (length fds)), err = None,
      readFileCalls = min (nat (c + n)) (length fds) + 1\<rparr>)"
proof -
  have c: "0 \<le> c \<and> c < 2 ^ 31 \<and> int32 c = c \<and>
      onceBody NewMultiFileDiffReader patch args fileDiffConnectionCompute =
        readFiles (int32 (c + n)) (map Inr fds) (fileDiffConnectionCompute\<lparr>afterIdx := c\<rparr>)"
  proof (cases "After args")
    case None
    then have c0: "c = 0" using assms(3) by (simp add: effectiveOffset_def)
    show ?thesis
      using None c0 assms(1,4)
      by (simp add: onceBody_def fileDiffConnectionCompute_def Let_def)
  next
    case (Some a)
    then obtain p where p: "ParseInt a = Inr p" and cp: "c = (if p < 0 then 0 else p)"
      using assms(3) by (auto simp: effectiveOffset_def split: sum.splits)
    have r: "is_int32 c" "0 \<le> c" using ParseInt_range [OF p] cp by (auto simp: is_int32_def)
    then have ci: "int32 c = c" by (simp add: int32_id)
    show ?thesis
      using Some p cp ci r assms(1,4)
      by (simp add: onceBody_def fileDiffConnectionCompute_def Let_def is_int32_def)
  qed
  have fresh: "fileDiffs (fileDiffConnectionCompute\<lparr>afterIdx := c\<rparr>) = []"
    "\<not> hasNextPage (fileDiffConnectionCompute\<lparr>afterIdx := c\<rparr>)"
    by (simp_all add: fileDiffConnectionCompute_def)
  consider (fits) "c + n < 2 ^ 31" "int32 (c + n) = c + n" | (wraps) "2 ^ 31 \<le> c + n" "int32 (c + n) < 0"
    using int32_wrap [of c n] c assms(5,6) by blast
  then show ?thesis
  proof cases
    case fits
    show ?thesis
      using c fits(2) assms(6) readFiles_map_Inr_fresh [OF fresh, of "c + n" fds]
      by (simp add: invoke_def fileDiffConnectionCompute_def Let_def)
  next
    case wraps
    have big: "int (length fds) < c + n" using wraps(1) assms(2) by simp
    then have t: "take (nat (c + n)) fds = fds" "min (nat (c + n)) (length fds) = length fds"
      by auto
    show ?thesis
      using c wraps(2) big t readFiles_map_Inr_unlimited [OF fresh, of "int32 (c + n)" fds]
      by (simp add: invoke_def fileDiffConnectionCompute_def Let_def)
  qed
qed

theorem page_reads_one_more_witness:
  "invoke (\<lambda>d. [Inr fileA, Inr fileB, Inr fileC]) examplePatch \<lparr>First = Some 1, After = Some ''1''\<rparr>
     fileDiffConnectionCompute =
    (([fileA, fileB], 1, True, None),
     \<lparr>onceDone = True, fileDiffs = [fileA, fileB], afterIdx = 1, hasNextPage = True, err = None,
      readFileCalls = 3\<rparr>)"
proof -
  have e: "effectiveOffset \<lparr>First = Some 1, After = Some ''1''\<rparr> = Some 1"
    by (simp add: effectiveOffset_def ParseInt_def ParseUint_def addDigit_def isDigit_def byte_def)
  show ?thesis
    using page_reads_one_more [of "\<lambda>d. [Inr fileA, Inr fileB, Inr fileC]" examplePatch
        "[fileA, fileB, fileC]" "\<lparr>First = Some 1, After = Some ''1''\<rparr>" 1 1] e
    by (simp add: is_int32_def)
qed

subsection \<open>Paging through a patch\<close>

lemma length_recs_le: "length (recs dr) \<le> length dr"
  by (induction dr rule: recs.induct) simp_all

lemma int32_sum:
  assumes "0 \<le> c" "c < 2 ^ 31" "0 < n" "n < 2 ^ 31"
  shows "(c + n < 2 ^ 31 \<and> int32 (c + n) = c + n) \<or> int32 (c + n) < 0"
proof (cases "c + n < 2 ^ 31")
  case True
  then show ?thesis using assms by (simp add: int32_id is_int32_def)
next
  case False
  have "(c + n + 2 ^ 31) mod 2 ^ 32 = c + n + 2 ^ 31 - 2 ^ 32"
    using assms False by (simp add: mod_pos_geq)
  then show ?thesis using assms False by (simp add: int32_def)
qed

lemma page_fresh:
  "page rd patch args =
    (let c = onceBody rd patch args fileDiffConnectionCompute
     in (fileDiffs c, afterIdx c, hasNextPage c, err c))"
  by (simp add: page_def invoke_def fileDiffConnectionCompute_def Let_def)

lemma page_cursor:
  assumes "0 \<le> c" "c < 2 ^ 31"
  shows "page rd patch \<lparr>First = Some n, After = Some (Itoa c)\<rparr> =
    (if 0 < int32 (c + n) then take (nat (int32 (c + n))) (recs (rd (Patch_Diff patch))) else recs (rd (Patch_Diff patch)),
     c,
     0 < int32 (c + n) \<and> int32 (c + n) < int (length (recs (rd (Patch_Diff patch)))),
     if 0 < int32 (c + n) \<and> int32 (c + n) < int (length (recs (rd (Patch_Diff patch)))) then None
     else firstErr (rd (Patch_Diff patch)))"
proof -
  have ci: "int32 c = c" using assms by (simp add: int32_id is_int32_def)
  show ?thesis
    using assms ci ParseInt_Itoa [OF assms]
    by (simp add: page_fresh onceBody_def fileDiffConnectionCompute_def Let_def
        readFiles_fileDiffs readFiles_hasNextPage readFiles_err)
qed

lemma whole_eq:
  "whole rd patch =
    (case firstErr (rd (Patch_Diff patch)) of Some e \<Rightarrow> Inl e | None \<Rightarrow> Inr (recs (rd (Patch_Diff patch))))"
  by (simp add: whole_def page_fresh onceBody_def fileDiffConnectionCompute_def Let_def window_def
      readFiles_fileDiffs readFiles_hasNextPage readFiles_err split: option.splits)

lemma drop_take_drop: "c \<le> t \<Longrightarrow> t \<le> length xs \<Longrightarrow> drop c (take t xs) @ drop t xs = drop c xs"
proof -
  assume a: "c \<le> t" "t \<le> length xs"
  have "drop c xs = drop c (take t xs @ drop t xs)" by simp
  also have "\<dots> = drop c (take t xs) @ drop (c - length (take t xs)) (drop t xs)"
    by (rule drop_append)
  finally show ?thesis using a by simp
qed

lemma pages_from:
  assumes n: "0 < n" "n < 2 ^ 31"
  shows "0 \<le> c \<Longrightarrow> c < 2 ^ 31 \<Longrightarrow> 0 < fuel \<Longrightarrow> int (length (rd (Patch_Diff patch))) - c < int fuel \<Longrightarrow>
    pages rd patch n fuel (Itoa c) =
      Some (case firstErr (rd (Patch_Diff patch)) of Some e \<Rightarrow> Inl e
            | None \<Rightarrow> Inr (drop (nat c) (recs (rd (Patch_Diff patch)))))"
proof (induction fuel arbitrary: c)
  case 0
  then show ?case by simp
next
  case (Suc fuel)
  let ?dr = "rd (Patch_Diff patch)"
  let ?T = "int32 (c + n)"
  let ?K = "int (length (recs ?dr))"
  have pg: "page rd patch \<lparr>First = Some n, After = Some (Itoa c)\<rparr> =
    (if 0 < ?T then take (nat ?T) (recs ?dr) else recs ?dr, c, 0 < ?T \<and> ?T < ?K,
     if 0 < ?T \<and> ?T < ?K then None else firstErr ?dr)"
    using page_cursor [OF Suc.prems(1,2)] .
  show ?case
  proof (cases "0 < ?T \<and> ?T < ?K")
    case True
    then have T: "?T = c + n" "c + n < 2 ^ 31"
      using int32_sum [OF Suc.prems(1,2) n] by auto
    have KL: "?K \<le> int (length ?dr)" using length_recs_le [of ?dr] by simp
    have f: "0 < fuel" "int (length ?dr) - (c + n) < int fuel"
      using True T KL Suc.prems n by auto
    have ih: "pages rd patch n fuel (Itoa (c + n)) =
      Some (case firstErr ?dr of Some e \<Rightarrow> Inl e | None \<Rightarrow> Inr (drop (nat (c + n)) (recs ?dr)))"
      using Suc.IH [of "c + n"] f T Suc.prems(1) n by simp
    have dd: "drop (nat c) (take (nat (c + n)) (recs ?dr)) @ drop (nat (c + n)) (recs ?dr) = drop (nat c) (recs ?dr)"
      using True T Suc.prems(1) n by (intro drop_take_drop) auto
    show ?thesis
      using True T pg ih dd by (simp add: window_def split: option.splits)
  next
    case False
    have fds: "(if 0 < ?T then take (nat ?T) (recs ?dr) else recs ?dr) = recs ?dr"
      using False by auto
    have hn: "(0 < ?T \<and> ?T < ?K) = False"
      using False by simp
    have pg': "page rd patch \<lparr>First = Some n, After = Some (Itoa c)\<rparr> = (recs ?dr, c, False, firstErr ?dr)"
      using pg unfolding fds hn by simp
    show ?thesis
      by (simp add: pg' window_def split: option.splits)
  qed
qed

lemma Itoa_0: "Itoa 0 = ''0''"
  by (simp add: Itoa_def digits10_0)

text \<open>
  C7. For any patch (also one whose diff fails to parse at some record) and any page size
  \<open>n > 0\<close> (an \<open>int32\<close>): requesting pages of \<open>n\<close> from the cursor \<open>0\<close> on, each request
  served by a resolver of its own and each next cursor being the previous offset plus \<open>n\<close>,
  until \<open>hasNextPage\<close> is false, ends after at most one request more than the diff has
  records, and the concatenation of the windows returned is exactly what a single request
  without limit returns (the same file diffs in the same order, or the same error).
\<close>

theorem pages_concat_whole:
  assumes "0 < n" and "n < 2 ^ 31" and "length (NewMultiFileDiffReader (Patch_Diff patch)) < fuel"
  shows "pages NewMultiFileDiffReader patch n fuel ''0'' = Some (whole NewMultiFileDiffReader patch)"
  using pages_from [OF assms(1,2), of 0 fuel NewMultiFileDiffReader patch] assms(3)
  by (simp add: Itoa_0 whole_eq split: option.split)

theorem pages_concat_whole_witness:
  "pages (\<lambda>d. [Inr fileA, Inr fileB, Inr fileC]) examplePatch 2 4 ''0'' = Some (Inr [fileA, fileB, fileC]) \<and>
   whole (\<lambda>d. [Inr fileA, Inr fileB, Inr fileC]) examplePatch = Inr [fileA, fileB, fileC]"
proof -
  have w: "whole (\<lambda>d. [Inr fileA, Inr fileB, Inr fileC]) examplePatch = Inr [fileA, fileB, fileC]"
    by (simp add: whole_eq)
  show ?thesis
    using pages_concat_whole [of 2 "\<lambda>d. [Inr fileA, Inr fileB, Inr fileC]" examplePatch 4] w by simp
qed

subsection \<open>applyPatch\<close>

lemma int32_id': "- (2 ^ 31) \<le> x \<Longrightarrow> x < 2 ^ 31 \<Longrightarrow> int32 x = x"
  by (simp add: int32_def)

lemma Split_nonempty: "Split s \<noteq> []"
  by (induction s) (auto split: list.splits)

lemma applyHunkLines_spec:
  assumes "int (length cl) + 1 < 2 ^ 31"
  shows "1 \<le> lastLine \<Longrightarrow> lastLine + int (origSpan ls) \<le> int (length cl) + 1 \<Longrightarrow>
    applyHunkLines cl ls out lastLine = Inr (out @ emitted cl ls lastLine, lastLine + int (origSpan ls))"
proof (induction ls arbitrary: out lastLine)
  case Nil
  show ?case by simp
next
  case (Cons line ls)
  show ?case
  proof (cases "line = []")
    case True
    then show ?thesis using Cons by (simp add: HasPrefix_def)
  next
    case False
    note ne = False
    show ?thesis
    proof (cases "hd line = CHR ''+''")
      case True
      then show ?thesis using ne Cons by (simp add: HasPrefix_def)
    next
      case False
      have sp: "lastLine + 1 + int (origSpan ls) \<le> int (length cl) + 1"
        using Cons.prems(2) ne False by (simp add: HasPrefix_def)
      have i1: "int32 (lastLine + 1) = lastLine + 1"
        using Cons.prems(1) sp assms by (intro int32_id') auto
      have i2: "int32 (lastLine - 1) = lastLine - 1"
        using Cons.prems(1) sp assms by (intro int32_id') auto
      have ih: "applyHunkLines cl ls out' (lastLine + 1) =
          Inr (out' @ emitted cl ls (lastLine + 1), lastLine + 1 + int (origSpan ls))" for out'
        using Cons.IH [of "lastLine + 1" out'] Cons.prems(1) sp by simp
      have ix: "index cl (lastLine - 1) = Inr (cl ! nat (lastLine - 1))"
        using Cons.prems(1) sp by (simp add: index_def)
      show ?thesis
        using ne False i1 i2 ih ix by (simp add: HasPrefix_def)
    qed
  qed
qed

lemma applyHunks_spec:
  assumes "int (length cl) + 1 < 2 ^ 31"
  shows "1 \<le> lastLine \<Longrightarrow> lastLine \<le> int (length cl) + 1 \<Longrightarrow> hunksInBounds (int (length cl)) lastLine hs \<Longrightarrow>
    \<exists>out'. applyHunks cl hs out lastLine = Inr (out', endCursor hs lastLine) \<and>
      out' @ drop (nat (endCursor hs lastLine - 1)) cl = out @ specLines cl hs lastLine \<and>
      1 \<le> endCursor hs lastLine \<and> endCursor hs lastLine \<le> int (length cl) + 1"
proof (induction hs arbitrary: out lastLine)
  case Nil
  then show ?case by simp
next
  case (Cons h hs)
  define start where "start = (if OrigStartLine h = 0 then lastLine else OrigStartLine h)"
  define nxt where "nxt = start + int (origSpan (Split (Body h)))"
  have b: "lastLine \<le> start" "nxt \<le> int (length cl) + 1" "hunksInBounds (int (length cl)) nxt hs"
    using Cons.prems(3) by (simp_all add: start_def nxt_def Let_def)
  have s1: "1 \<le> start" using Cons.prems(1) b(1) by simp
  have sN: "start \<le> int (length cl) + 1" using b(2) by (simp add: nxt_def)
  define hole where "hole = take (nat (start - lastLine)) (drop (nat (lastLine - 1)) cl)"
  have lenhole: "int (length hole) = start - lastLine"
    using Cons.prems(1) b(1) sN by (simp add: hole_def)
  have pre: "(if OrigStartLine h \<noteq> 0 \<and> OrigStartLine h \<noteq> lastLine then
             (case slice cl (int32 (lastLine - 1)) (int32 (OrigStartLine h - 1)) of
                Inl p \<Rightarrow> Inl p
              | Inr originalLines \<Rightarrow>
                  Inr (out @ originalLines, int32 (lastLine + int32 (int (length originalLines)))))
           else Inr (out, lastLine)) = Inr (out @ hole, start)"
  proof (cases "OrigStartLine h \<noteq> 0 \<and> OrigStartLine h \<noteq> lastLine")
    case True
    then have st: "start = OrigStartLine h" by (simp add: start_def)
    have i1: "int32 (lastLine - 1) = lastLine - 1"
      using Cons.prems(1,2) assms by (intro int32_id') auto
    have i2: "int32 (start - 1) = start - 1"
      using s1 sN assms by (intro int32_id') auto
    have sl: "slice cl (lastLine - 1) (start - 1) = Inr hole"
      using Cons.prems(1) b(1) sN by (simp add: slice_def hole_def)
    have i3: "int32 (int (length hole)) = start - lastLine"
      using lenhole Cons.prems(1) b(1) sN assms by (simp add: int32_id')
    have i4: "int32 (lastLine + (start - lastLine)) = start"
      using s1 sN assms by (simp add: int32_id')
    show ?thesis
      using True i1 i2 sl i3 i4 by (simp add: st [symmetric])
  next
    case False
    then have "start = lastLine" by (auto simp: start_def)
    then show ?thesis using False by (auto simp: hole_def)
  qed
  have lines: "applyHunkLines cl (Split (Body h)) (out @ hole) start =
      Inr ((out @ hole) @ emitted cl (Split (Body h)) start, nxt)"
    using applyHunkLines_spec [OF assms s1, of "Split (Body h)" "out @ hole"] b(2)
    by (simp add: nxt_def)
  have n1: "1 \<le> nxt" using s1 by (simp add: nxt_def)
  obtain out' where ih:
    "applyHunks cl hs ((out @ hole) @ emitted cl (Split (Body h)) start) nxt = Inr (out', endCursor hs nxt)"
    "out' @ drop (nat (endCursor hs nxt - 1)) cl =
       ((out @ hole) @ emitted cl (Split (Body h)) start) @ specLines cl hs nxt"
    "1 \<le> endCursor hs nxt" "endCursor hs nxt \<le> int (length cl) + 1"
    using Cons.IH [OF n1 b(2) b(3), of "(out @ hole) @ emitted cl (Split (Body h)) start"] by blast
  have ec: "endCursor (h # hs) lastLine = endCursor hs nxt"
    by (simp add: start_def nxt_def)
  have sp: "specLines cl (h # hs) lastLine = hole @ emitted cl (Split (Body h)) start @ specLines cl hs nxt"
    by (simp add: start_def nxt_def hole_def Let_def)
  have "applyHunks cl (h # hs) out lastLine = Inr (out', endCursor hs nxt)"
    by (simp only: applyHunks.simps pre lines ih(1) sum.case prod.case)
  then show ?case
    using ih(2,3,4) ec sp by simp
qed

lemma applyPatch_cases:
  assumes "hunksAscendingWithinBase fileContent fileDiff"
  shows "\<exists>out. applyHunks (Split fileContent) (Hunks fileDiff) [] 1 = Inr (out, endCursor (Hunks fileDiff) 1) \<and>
     out @ drop (nat (endCursor (Hunks fileDiff) 1 - 1)) (Split fileContent) =
       specLines (Split fileContent) (Hunks fileDiff) 1 \<and>
     applyPatch fileContent fileDiff =
       Inr (if endCursor (Hunks fileDiff) 1 = int (length (Split fileContent)) then Join out
            else applyPatch_spec fileContent fileDiff)"
proof -
  let ?cl = "Split fileContent"
  let ?e = "endCursor (Hunks fileDiff) 1"
  have n: "int (length ?cl) + 1 < 2 ^ 31" and hb: "hunksInBounds (int (length ?cl)) 1 (Hunks fileDiff)"
    using assms by (simp_all add: hunksAscendingWithinBase_def Let_def)
  have pos: "0 < int (length ?cl)" using Split_nonempty [of fileContent] by simp
  obtain out where o: "applyHunks ?cl (Hunks fileDiff) [] 1 = Inr (out, ?e)"
    "out @ drop (nat (?e - 1)) ?cl = specLines ?cl (Hunks fileDiff) 1"
    "1 \<le> ?e" "?e \<le> int (length ?cl) + 1"
    using applyHunks_spec [OF n, of 1 "Hunks fileDiff" "[]"] hb pos by auto
  have i1: "int32 (int (length ?cl)) = int (length ?cl)"
    using n by (intro int32_id') auto
  have i2: "int32 (?e - 1) = ?e - 1"
    using o(3,4) n by (intro int32_id') auto
  have sl: "slice ?cl (?e - 1) (int (length ?cl)) = Inr (drop (nat (?e - 1)) ?cl)"
    using o(3,4) by (simp add: slice_def)
  have "applyPatch fileContent fileDiff =
       Inr (if ?e = int (length ?cl) then Join out else applyPatch_spec fileContent fileDiff)"
    using o(1,2) i1 i2 sl pos by (auto simp: applyPatch_def applyPatch_spec_def Let_def)
  then show ?thesis using o(1,2) by blast
qed

lemma applyPatch_refines:
  "hunksAscendingWithinBase fileContent fileDiff \<Longrightarrow>
   endCursor (Hunks fileDiff) 1 \<noteq> int (length (Split fileContent)) \<Longrightarrow>
   applyPatch fileContent fileDiff = Inr (applyPatch_spec fileContent fileDiff)"
  using applyPatch_cases [of fileContent fileDiff] by auto

lemma applyPatch_two_hunks:
  "applyPatch base12 twoHunks =
   Inr (Join [''l1'', ''l2'', ''L3'', ''l4'', ''l5'', ''l6'', ''l7'', ''l8'', ''l9'', ''l10'', ''new'', ''l11'', ''l12''])"
  by (simp add: applyPatch_def base12_def twoHunks_def slice_def index_def HasPrefix_def int32_def Let_def)

text \<open>
  C5. The claim: for hunks in ascending order, \<open>applyPatch\<close> copies the holes, treats the
  lines of a hunk as described, and appends all remaining original lines after the last
  hunk. The code does so (\<open>applyPatch_refines\<close>, and \<open>applyPatch_two_hunks\<close> for the example
  of twelve lines) unless exactly one original line remains after the last hunk: then the
  test \<open>origLines != lastLine\<close> fails and that line is dropped. On the base \<open>a, b, c\<close> and
  the hunk that replaces \<open>a\<close> by \<open>A\<close> with the context line \<open>b\<close>, the code returns \<open>A, b\<close>,
  where the claim gives \<open>A, b, c\<close>.
\<close>

theorem applyPatch_drops_last_line:
  "applyPatch ''a\<newline>b\<newline>c''
     \<lparr>OrigName = ''f'', NewName = ''f'', Hunks = [\<lparr>OrigStartLine = 1, Body = ''-a\<newline>+A\<newline> b\<newline>''\<rparr>]\<rparr>
     = Inr ''A\<newline>b'' \<and>
   applyPatch_spec ''a\<newline>b\<newline>c''
     \<lparr>OrigName = ''f'', NewName = ''f'', Hunks = [\<lparr>OrigStartLine = 1, Body = ''-a\<newline>+A\<newline> b\<newline>''\<rparr>]\<rparr>
     = ''A\<newline>b\<newline>c''"
  by (simp add: applyPatch_def applyPatch_spec_def slice_def index_def HasPrefix_def int32_def Let_def)

text \<open>
  C10. \<open>applyPatch\<close> is not total: a context line that refers to a line after the end of
  the base makes the index \<open>contentLines[lastLine-1]\<close> panic, and a hunk that starts beyond
  the end of the base makes the hole slice panic. Under the precondition that the hunks
  are in ascending order of original lines and every original line they go over exists
  in the base (\<open>hunksAscendingWithinBase\<close>), no index and no slice is out of range:
  \<open>applyPatch\<close> returns a content.
\<close>

theorem applyPatch_in_bounds:
  "applyPatch ''a''
     \<lparr>OrigName = ''f'', NewName = ''f'', Hunks = [\<lparr>OrigStartLine = 1, Body = '' a\<newline> b\<newline>''\<rparr>]\<rparr>
     = Inl IndexOutOfRange \<and>
   applyPatch ''a''
     \<lparr>OrigName = ''f'', NewName = ''f'', Hunks = [\<lparr>OrigStartLine = 5, Body = ''+x\<newline>''\<rparr>]\<rparr>
     = Inl SliceBoundsOutOfRange \<and>
   (\<forall>fileContent fileDiff. hunksAscendingWithinBase fileContent fileDiff \<longrightarrow>
      (\<exists>out. applyPatch fileContent fileDiff = Inr out))"
proof -
  have a: "applyPatch ''a''
     \<lparr>OrigName = ''f'', NewName = ''f'', Hunks = [\<lparr>OrigStartLine = 1, Body = '' a\<newline> b\<newline>''\<rparr>]\<rparr>
     = Inl IndexOutOfRange"
    by (simp add: applyPatch_def slice_def index_def HasPrefix_def int32_def Let_def)
  have b: "applyPatch ''a''
     \<lparr>OrigName = ''f'', NewName = ''f'', Hunks = [\<lparr>OrigStartLine = 5, Body = ''+x\<newline>''\<rparr>]\<rparr>
     = Inl SliceBoundsOutOfRange"
    by (simp add: applyPatch_def slice_def index_def HasPrefix_def int32_def Let_def)
  have c: "\<exists>out. applyPatch fileContent fileDiff = Inr out"
    if "hunksAscendingWithinBase fileContent fileDiff" for fileContent fileDiff
    using applyPatch_cases [OF that] by blast
  show ?thesis using a b c by blast
qed

theorem applyPatch_in_bounds_witness:
  "hunksAscendingWithinBase base12 twoHunks \<and> (\<exists>out. applyPatch base12 twoHunks = Inr out)"
proof -
  have h: "hunksAscendingWithinBase base12 twoHunks"
    by (simp add: hunksAscendingWithinBase_def base12_def twoHunks_def HasPrefix_def Let_def)
  show ?thesis
    using applyPatch_in_bounds h by blast
qed

end
